theory Spec2Isabelle
  imports Main "HOL-Library.Word" "HOL-Library.Monad_Syntax"
begin

section \<open>The LDPC encoder of lib/src/phy/fec/ldpc/ldpc_encoder.c\<close>

text \<open>
  A shallow embedding of \<^verbatim>\<open>ldpc_encoder.c\<close>. The C integers are words of the width the
  code gives them: \<^verbatim>\<open>uint32_t\<close> arguments are \<open>32 word\<close>, the lifting size and the lifted
  dimensions are \<open>16 word\<close> (\<^verbatim>\<open>uint16_t ls\<close> in the signature of the initialiser), the
  base-graph dimensions are \<open>8 word\<close>. Expressions that C evaluates in \<^verbatim>\<open>int\<close> and then
  compares with, or stores into, a \<^verbatim>\<open>uint32_t\<close> are written in \<open>32 word\<close>: none of them can
  leave the range of \<^verbatim>\<open>int\<close>, so the conversion to \<^verbatim>\<open>uint32_t\<close> is the reduction modulo
  \<open>2 ^ 32\<close> that word arithmetic performs.

  A function returns \<open>None\<close> where the C program has no defined behaviour (division by
  zero, a call through a null function pointer, an access outside a buffer).
\<close>

subsection \<open>Function pointers and the instance structure\<close>

datatype free_fn = P_free_enc_c | P_free_enc_avx2 | P_free_enc_avx2long

datatype encode_fn = P_encode_c | P_encode_avx2 | P_encode_avx2long

datatype hr_fn =
    P_encode_high_rate_case1 | P_encode_high_rate_case2
  | P_encode_high_rate_case3 | P_encode_high_rate_case4

datatype hr_avx2_fn =
    P_encode_high_rate_case1_avx2 | P_encode_high_rate_case2_avx2
  | P_encode_high_rate_case3_avx2 | P_encode_high_rate_case4_avx2
  | P_encode_high_rate_case1_avx2long | P_encode_high_rate_case2_avx2long
  | P_encode_high_rate_case3_avx2long | P_encode_high_rate_case4_avx2long

text \<open>
  \<^verbatim>\<open>srslte_ldpc_encoder_t\<close>. A pointer to a buffer owned by the instance is the option of
  the buffer's contents (\<open>None\<close> is the null pointer); a function pointer is the option of
  a tag naming the function.
\<close>

record encoder =
  ptr :: "8 word list option"
  bg :: int
  ls :: "16 word"
  bgN :: "8 word"
  liftN :: "16 word"
  bgM :: "8 word"
  liftM :: "16 word"
  bgK :: "8 word"
  liftK :: "16 word"
  pcm :: "16 word list option"
  free :: "free_fn option"
  encode :: "encode_fn option"
  encode_high_rate :: "hr_fn option"
  encode_high_rate_avx2 :: "hr_avx2_fn option"

text \<open>The base-graph enumeration: the error messages print \<^verbatim>\<open>bg + 1\<close> as the graph's number.\<close>

definition BG1 :: int where "BG1 = 0"
definition BG2 :: int where "BG2 = 1"

datatype srslte_ldpc_encoder_type_t =
  SRSLTE_LDPC_ENCODER_C | SRSLTE_LDPC_ENCODER_AVX2 | SRSLTE_LDPC_ENCODER_OTHER int

subsection \<open>What the file takes from elsewhere\<close>

text \<open>
  The macros, the lifting-size classifier, the allocators and the base-graph table are
  declared in headers and defined in files outside this one. They are parameters of the
  model. An allocator returns \<open>None\<close> for a null pointer. The last six parameters stand
  for the bits that the kernels of the three tiers compute from the table: the
  auxiliary representation of the message, and bit \<open>k\<close> of parity layer \<open>m\<close>.
\<close>

record env =
  BG1Nfull :: nat
  BG1M :: nat
  BG2Nfull :: nat
  BG2M :: nat
  VOID_LIFTSIZE :: int
  SRSLTE_AVX2_B_SIZE :: nat
  LV_HAVE_AVX2 :: bool
  get_ls_index :: "16 word \<Rightarrow> int"
  srslte_vec_u16_malloc :: "nat \<Rightarrow> 16 word list option"
  srslte_vec_u8_malloc :: "nat \<Rightarrow> 8 word list option"
  create_compact_pcm :: "16 word list \<Rightarrow> int \<Rightarrow> 16 word \<Rightarrow> int \<times> 16 word list"
  create_ldpc_enc_avx2 :: "encoder \<Rightarrow> 8 word list option"
  create_ldpc_enc_avx2long :: "encoder \<Rightarrow> 8 word list option"
  systematic_aux :: "encoder \<Rightarrow> 8 word list \<Rightarrow> 8 word list"
  core_parity :: "hr_fn \<Rightarrow> encoder \<Rightarrow> nat \<Rightarrow> nat \<Rightarrow> 8 word"
  ext_parity :: "encoder \<Rightarrow> 8 word list \<Rightarrow> nat \<Rightarrow> nat \<Rightarrow> 8 word"
  core_parity_avx2 :: "hr_avx2_fn \<Rightarrow> encoder \<Rightarrow> nat \<Rightarrow> nat \<Rightarrow> 8 word"
  ext_parity_avx2 :: "encoder \<Rightarrow> nat \<Rightarrow> nat \<Rightarrow> 8 word"
  ext_parity_avx2long :: "encoder \<Rightarrow> nat \<Rightarrow> nat \<Rightarrow> 8 word"

subsection \<open>Destruction\<close>

text \<open>The release actions a destructor performs, in the order it performs them.\<close>

datatype release =
  Free_pcm | Free_ptr | Delete_ldpc_enc_avx2 | Delete_ldpc_enc_avx2long

definition free_enc_c :: "encoder \<Rightarrow> release list" where
  "free_enc_c q =
     (if pcm q \<noteq> None then [Free_pcm] else []) @
     (if ptr q \<noteq> None then [Free_ptr] else [])"

definition free_enc_avx2 :: "encoder \<Rightarrow> release list" where
  "free_enc_avx2 q =
     (if pcm q \<noteq> None then [Free_pcm] else []) @
     (if ptr q \<noteq> None then [Delete_ldpc_enc_avx2] else [])"

definition free_enc_avx2long :: "encoder \<Rightarrow> release list" where
  "free_enc_avx2long q =
     (if pcm q \<noteq> None then [Free_pcm] else []) @
     (if ptr q \<noteq> None then [Delete_ldpc_enc_avx2long] else [])"

fun call_free :: "free_fn \<Rightarrow> encoder \<Rightarrow> release list" where
  "call_free P_free_enc_c q = free_enc_c q"
| "call_free P_free_enc_avx2 q = free_enc_avx2 q"
| "call_free P_free_enc_avx2long q = free_enc_avx2long q"

text \<open>\<^verbatim>\<open>bzero(q, sizeof(srslte_ldpc_encoder_t))\<close>: every field is zero, every pointer null.\<close>

definition bzero_encoder :: encoder where
  "bzero_encoder =
     \<lparr>ptr = None, bg = 0, ls = 0, bgN = 0, liftN = 0, bgM = 0, liftM = 0, bgK = 0,
      liftK = 0, pcm = None, free = None, encode = None, encode_high_rate = None,
      encode_high_rate_avx2 = None\<rparr>"

definition srslte_ldpc_encoder_free :: "encoder \<Rightarrow> release list \<times> encoder" where
  "srslte_ldpc_encoder_free q =
     ((case free q of Some f \<Rightarrow> call_free f q | None \<Rightarrow> []), bzero_encoder)"

subsection \<open>Initialisation\<close>

text \<open>
  The initialisers return the status, the instance as they leave it and the release
  actions performed on the way.
\<close>

definition init_c :: "env \<Rightarrow> encoder \<Rightarrow> int \<times> encoder \<times> release list" where
  "init_c E q =
     (let ls_index = get_ls_index E (ls q) in
      if ls_index = VOID_LIFTSIZE E then (-1, q, [])
      else
        (case
           (if bg q = BG1 \<and> ls_index \<noteq> 6 then Some P_encode_high_rate_case1
            else if bg q = BG1 \<and> ls_index = 6 then Some P_encode_high_rate_case2
            else if bg q = BG2 \<and> ls_index \<noteq> 3 \<and> ls_index \<noteq> 7 then Some P_encode_high_rate_case3
            else if bg q = BG2 \<and> (ls_index = 3 \<or> ls_index = 7) then Some P_encode_high_rate_case4
            else None)
         of
           None \<Rightarrow> (-1, q, [])
         | Some k \<Rightarrow>
             (let q1 = q\<lparr>encode_high_rate := Some k\<rparr>;
                  q2 = q1\<lparr>free := Some P_free_enc_c\<rparr>;
                  q3 = q2\<lparr>ptr := srslte_vec_u8_malloc E (unat (bgM q2) * unat (ls q2))\<rparr>
              in if ptr q3 = None then (-1, q3, free_enc_c q3)
                 else (0, q3\<lparr>encode := Some P_encode_c\<rparr>, []))))"

definition init_avx2 :: "env \<Rightarrow> encoder \<Rightarrow> int \<times> encoder \<times> release list" where
  "init_avx2 E q =
     (let ls_index = get_ls_index E (ls q) in
      if ls_index = VOID_LIFTSIZE E then (-1, q, [])
      else
        (case
           (if bg q = BG1 \<and> ls_index \<noteq> 6 then Some P_encode_high_rate_case1_avx2
            else if bg q = BG1 \<and> ls_index = 6 then Some P_encode_high_rate_case2_avx2
            else if bg q = BG2 \<and> ls_index \<noteq> 3 \<and> ls_index \<noteq> 7
              then Some P_encode_high_rate_case3_avx2
            else if bg q = BG2 \<and> (ls_index = 3 \<or> ls_index = 7)
              then Some P_encode_high_rate_case4_avx2
            else None)
         of
           None \<Rightarrow> (-1, q, [])
         | Some k \<Rightarrow>
             (let q1 = q\<lparr>encode_high_rate_avx2 := Some k\<rparr>;
                  q2 = q1\<lparr>free := Some P_free_enc_avx2\<rparr>;
                  q3 = q2\<lparr>ptr := create_ldpc_enc_avx2 E q2\<rparr>
              in if ptr q3 = None then (-1, q3, free_enc_avx2 q3)
                 else (0, q3\<lparr>encode := Some P_encode_avx2\<rparr>, []))))"

definition init_avx2long :: "env \<Rightarrow> encoder \<Rightarrow> int \<times> encoder \<times> release list" where
  "init_avx2long E q =
     (let ls_index = get_ls_index E (ls q) in
      if ls_index = VOID_LIFTSIZE E then (-1, q, [])
      else
        (case
           (if bg q = BG1 \<and> ls_index \<noteq> 6 then Some P_encode_high_rate_case1_avx2long
            else if bg q = BG1 \<and> ls_index = 6 then Some P_encode_high_rate_case2_avx2long
            else if bg q = BG2 \<and> ls_index \<noteq> 3 \<and> ls_index \<noteq> 7
              then Some P_encode_high_rate_case3_avx2long
            else if bg q = BG2 \<and> (ls_index = 3 \<or> ls_index = 7)
              then Some P_encode_high_rate_case4_avx2long
            else None)
         of
           None \<Rightarrow> (-1, q, [])
         | Some k \<Rightarrow>
             (let q1 = q\<lparr>encode_high_rate_avx2 := Some k\<rparr>;
                  q2 = q1\<lparr>free := Some P_free_enc_avx2long\<rparr>;
                  q3 = q2\<lparr>ptr := create_ldpc_enc_avx2long E q2\<rparr>
              in if ptr q3 = None then (-1, q3, free_enc_avx2long q3)
                 else (0, q3\<lparr>encode := Some P_encode_avx2long\<rparr>, []))))"

text \<open>The assignments of \<^verbatim>\<open>srslte_ldpc_encoder_init\<close> up to the allocation of the table.\<close>

definition set_dimensions :: "env \<Rightarrow> encoder \<Rightarrow> int \<Rightarrow> 16 word \<Rightarrow> encoder" where
  "set_dimensions E q b l =
     (let q1 = (if b = BG1 then q\<lparr>bgN := of_nat (BG1Nfull E), bgM := of_nat (BG1M E)\<rparr>
                else q\<lparr>bgN := of_nat (BG2Nfull E), bgM := of_nat (BG2M E)\<rparr>);
          q2 = q1\<lparr>bg := b\<rparr>;
          q3 = q2\<lparr>bgK := bgN q2 - bgM q2\<rparr>;
          q4 = q3\<lparr>ls := l\<rparr>;
          q5 = q4\<lparr>liftK := l * ucast (bgK q4)\<rparr>;
          q6 = q5\<lparr>liftM := l * ucast (bgM q5)\<rparr>;
          q7 = q6\<lparr>liftN := l * ucast (bgN q6)\<rparr>
      in q7)"

definition srslte_ldpc_encoder_init ::
  "env \<Rightarrow> encoder \<Rightarrow> srslte_ldpc_encoder_type_t \<Rightarrow> int \<Rightarrow> 16 word
     \<Rightarrow> int \<times> encoder \<times> release list" where
  "srslte_ldpc_encoder_init E q ty b l =
     (if b \<noteq> BG1 \<and> b \<noteq> BG2 then (-1, q, [])
      else
        (let q7 = set_dimensions E q b l;
             q8 = q7\<lparr>pcm := srslte_vec_u16_malloc E (unat (bgM q7) * unat (bgN q7))\<rparr>
         in case pcm q8 of
              None \<Rightarrow> (-1, q8, [])
            | Some t \<Rightarrow>
                (let (rc, t') = create_compact_pcm E t (bg q8) (ls q8);
                     q9 = q8\<lparr>pcm := Some t'\<rparr>
                 in if rc \<noteq> 0 then (-1, q9, [])
                    else
                      (case ty of
                         SRSLTE_LDPC_ENCODER_C \<Rightarrow> init_c E q9
                       | SRSLTE_LDPC_ENCODER_AVX2 \<Rightarrow>
                           (if LV_HAVE_AVX2 E then
                              (if unat l \<le> SRSLTE_AVX2_B_SIZE E then init_avx2 E q9
                               else init_avx2long E q9)
                            else (-1, q9, []))
                       | SRSLTE_LDPC_ENCODER_OTHER _ \<Rightarrow> (-1, q9, [])))))"

subsection \<open>Rate-matching length\<close>

text \<open>
  The three adjustments of the requested codeword length, the same lines in
  \<^verbatim>\<open>encode_c\<close>, \<^verbatim>\<open>encode_avx2\<close> and \<^verbatim>\<open>encode_avx2long\<close>. The result is the value of
  \<^verbatim>\<open>cdwd_rm_length\<close> after them; \<open>None\<close> is the remainder by a zero lifting size.
\<close>

definition rm_length :: "encoder \<Rightarrow> 32 word \<Rightarrow> 32 word option" where
  "rm_length q cdwd_rm_length =
     (let c1 = (if cdwd_rm_length > ucast (liftN q) - 2 * ucast (ls q)
                then ucast (liftN q) - 2 * ucast (ls q) else cdwd_rm_length);
          c2 = (if c1 < (ucast (bgK q) + 2) * ucast (ls q)
                then (ucast (bgK q) + 2) * ucast (ls q) else c1)
      in if ls q = 0 then None
         else if c2 mod ucast (ls q) \<noteq> 0
           then Some ((c2 div ucast (ls q) + 1) * ucast (ls q))
         else Some c2)"

text \<open>\<^verbatim>\<open>uint8_t n_layers = cdwd_rm_length / q->ls - q->bgK + 2\<close>, computed in 32 bits and
  stored into 8.\<close>

definition n_layers_of :: "encoder \<Rightarrow> 32 word \<Rightarrow> 8 word" where
  "n_layers_of q c = ucast (c div ucast (ls q) - ucast (bgK q) + (2 :: 32 word))"

subsection \<open>The portable encoder\<close>

text \<open>
  The loop that copies the systematic bits:
  \<^verbatim>\<open>for (int k = 0; k < (q->bgK - 2) * q->ls; k++) output[k] = input[skip_in + k];\<close>
  with \<^verbatim>\<open>int\<close> counters. An index outside either buffer has no defined behaviour.
\<close>

function systematic_loop ::
  "8 word list \<Rightarrow> 8 word list \<Rightarrow> int \<Rightarrow> int \<Rightarrow> int \<Rightarrow> 8 word list option" where
  "systematic_loop input output skip_in bound k =
     (if k < bound then
        (if 0 \<le> k \<and> nat k < length output \<and> 0 \<le> skip_in + k \<and> nat (skip_in + k) < length input
         then systematic_loop input (output[nat k := input ! nat (skip_in + k)]) skip_in bound (k + 1)
         else None)
      else Some output)"
  by pat_completeness auto
termination
  by (relation "measure (\<lambda>(input, output, skip_in, bound, k). nat (bound - k))") auto

text \<open>
  Modelled from the spec: \<^verbatim>\<open>preprocess_systematic_bits\<close>, the four kernels
  \<^verbatim>\<open>encode_high_rate_case1\<close> to \<^verbatim>\<open>encode_high_rate_case4\<close> and \<^verbatim>\<open>encode_ext_region\<close> are
  defined in another file, and \<open>write_layer\<close> is the store of one parity layer that
  they share in this model. The specification says where they write, not which bits:
  the preprocessing step derives an auxiliary representation from the systematic input
  in the working buffer; the high-rate kernel computes the first 4 parity
  block-columns; the extension-region kernel computes the further parity block-columns
  up to \<^verbatim>\<open>n_layers\<close>, in increasing order, \<^verbatim>\<open>n_layers - 4\<close> iterations when
  \<^verbatim>\<open>n_layers > 4\<close> and none otherwise; the codeword is the systematic region followed by
  the computed parity layers. So parity layer \<open>m\<close> (counted from 0) occupies the \<open>ls\<close>
  output positions from \<open>(bgK - 2 + m) * ls\<close>. The bits themselves come from the
  base-graph table and are the parameters \<open>systematic_aux\<close>, \<open>core_parity\<close> and
  \<open>ext_parity\<close>. What the kernels leave in the working buffer is not tracked beyond
  the preprocessing step. A store outside the output buffer has no defined behaviour.
\<close>

definition write_layer ::
  "(nat \<Rightarrow> 8 word) \<Rightarrow> encoder \<Rightarrow> 8 word list \<Rightarrow> nat \<Rightarrow> 8 word list option" where
  "write_layer bits q output m =
     (let pos = (uint (bgK q) + int m - 2) * uint (ls q); n = unat (ls q) in
      if 0 \<le> pos \<and> nat pos + n \<le> length output
      then Some (take (nat pos) output @ map bits [0..<n] @ drop (nat pos + n) output)
      else None)"

text \<open>
  Modelled from the spec: \<^verbatim>\<open>preprocess_systematic_bits\<close> is defined in another file. It
  derives in the working buffer the auxiliary representation of the systematic input
  that the kernels need; a null working buffer has no defined behaviour.
\<close>

definition preprocess_systematic_bits :: "env \<Rightarrow> encoder \<Rightarrow> 8 word list \<Rightarrow> encoder option" where
  "preprocess_systematic_bits E q input =
     (if ptr q = None then None else Some (q\<lparr>ptr := Some (systematic_aux E q input)\<rparr>))"

text \<open>
  Modelled from the spec: the kernels \<^verbatim>\<open>encode_high_rate_case1\<close> to
  \<^verbatim>\<open>encode_high_rate_case4\<close>, called through \<^verbatim>\<open>q->encode_high_rate\<close>, are defined in
  another file. Each computes the first 4 parity block-columns.
\<close>

definition call_encode_high_rate ::
  "env \<Rightarrow> hr_fn \<Rightarrow> encoder \<Rightarrow> 8 word list \<Rightarrow> 8 word list option" where
  "call_encode_high_rate E f q output =
     do {
       o0 \<leftarrow> write_layer (core_parity E f q 0) q output 0;
       o1 \<leftarrow> write_layer (core_parity E f q 1) q o0 1;
       o2 \<leftarrow> write_layer (core_parity E f q 2) q o1 2;
       write_layer (core_parity E f q 3) q o2 3
     }"

text \<open>
  Modelled from the spec: the loop of \<^verbatim>\<open>encode_ext_region\<close>, defined in another file. It
  computes the parity block-columns from the fifth to \<^verbatim>\<open>n_layers\<close> in increasing order,
  each from strictly earlier state only: the (preprocessed) message in the working
  buffer and the part of the codeword that precedes the layer in the output.
\<close>

function ext_loop :: "env \<Rightarrow> encoder \<Rightarrow> 8 word list \<Rightarrow> nat \<Rightarrow> nat \<Rightarrow> 8 word list option" where
  "ext_loop E q output n m =
     (if m < n then
        do {
          output' \<leftarrow>
            write_layer
              (ext_parity E q (take (nat ((uint (bgK q) + int m - 2) * uint (ls q))) output) m)
              q output m;
          ext_loop E q output' n (m + 1)
        }
      else Some output)"
  by pat_completeness auto
termination
  by (relation "measure (\<lambda>(E, q, output, n, m). n - m)") auto

text \<open>
  Modelled from the spec: \<^verbatim>\<open>encode_ext_region\<close>, defined in another file, runs
  \<^verbatim>\<open>n_layers - 4\<close> iterations when \<^verbatim>\<open>n_layers > 4\<close> and none otherwise.
\<close>

definition encode_ext_region ::
  "env \<Rightarrow> encoder \<Rightarrow> 8 word list \<Rightarrow> 8 word \<Rightarrow> 8 word list option" where
  "encode_ext_region E q output n_layers = ext_loop E q output (unat n_layers) 4"

text \<open>
  \<^verbatim>\<open>encode_c\<close>. The result is the status, the instance (its working buffer is written)
  and the output buffer.
\<close>

definition encode_c ::
  "env \<Rightarrow> encoder \<Rightarrow> 8 word list \<Rightarrow> 8 word list \<Rightarrow> 32 word \<Rightarrow> 32 word
     \<Rightarrow> (int \<times> encoder \<times> 8 word list) option" where
  "encode_c E q input output input_length cdwd_rm_length =
     (if bgK q = 0 then None
      else if input_length div ucast (bgK q) \<noteq> ucast (ls q) then Some (-1, q, output)
      else
        do {
          c \<leftarrow> rm_length q cdwd_rm_length;
          out1 \<leftarrow> systematic_loop input output (2 * uint (ls q))
                    ((uint (bgK q) - 2) * uint (ls q)) 0;
          q1 \<leftarrow> preprocess_systematic_bits E q input;
          f \<leftarrow> encode_high_rate q1;
          out2 \<leftarrow> call_encode_high_rate E f q1 out1;
          out3 \<leftarrow> encode_ext_region E q1 out2 (n_layers_of q1 c);
          Some (0, q1, out3)
        })"

subsection \<open>The vectorised encoders\<close>

text \<open>
  Modelled from the spec: the routines that \<^verbatim>\<open>encode_avx2\<close> and \<^verbatim>\<open>encode_avx2long\<close> call
  are defined in other files. The specification gives the working buffer of these
  tiers a packed or aligned layout that the caller cannot observe; here it holds the
  \<open>bgN\<close> block-columns of the lifted codeword one after the other, \<open>ls\<close> bytes each, the
  \<open>bgK\<close> systematic ones first. A routine returns \<open>None\<close> where it has no defined
  behaviour (a null working buffer, an access outside a buffer).
\<close>

text \<open>
  Modelled from the spec: the store of block-column \<open>i\<close> of the working buffer, shared
  by the vectorised kernels in this model.
\<close>

definition write_node :: "(nat \<Rightarrow> 8 word) \<Rightarrow> encoder \<Rightarrow> nat \<Rightarrow> encoder option" where
  "write_node bits q i =
     (case ptr q of
        None \<Rightarrow> None
      | Some buf \<Rightarrow>
          (let n = unat (ls q); pos = i * n in
           if pos + n \<le> length buf
           then Some (q\<lparr>ptr := Some (take pos buf @ map bits [0..<n] @ drop (pos + n) buf)\<rparr>)
           else None))"

text \<open>
  Modelled from the spec: \<^verbatim>\<open>load_avx2\<close> places the message, \<open>msg_len\<close> blocks of width
  \<open>ls\<close>, in the systematic block-columns of the working buffer and clears the other
  \<open>cdwd_len - msg_len\<close>. The result is the new contents of the buffer.
\<close>

definition load_avx2 ::
  "8 word list option \<Rightarrow> 8 word list \<Rightarrow> 8 word \<Rightarrow> 8 word \<Rightarrow> 16 word \<Rightarrow> 8 word list option" where
  "load_avx2 p input msg_len cdwd_len l =
     (case p of
        None \<Rightarrow> None
      | Some buf \<Rightarrow>
          if unat msg_len * unat l \<le> length input
          then Some (take (unat msg_len * unat l) input @
                     replicate ((unat cdwd_len - unat msg_len) * unat l) 0)
          else None)"

text \<open>Modelled from the spec: \<^verbatim>\<open>load_avx2long\<close>, the same step of the tier for large
  lifting sizes.\<close>

definition load_avx2long ::
  "8 word list option \<Rightarrow> 8 word list \<Rightarrow> 8 word \<Rightarrow> 8 word \<Rightarrow> 16 word \<Rightarrow> 8 word list option" where
  "load_avx2long p input msg_len cdwd_len l =
     (case p of
        None \<Rightarrow> None
      | Some buf \<Rightarrow>
          if unat msg_len * unat l \<le> length input
          then Some (take (unat msg_len * unat l) input @
                     replicate ((unat cdwd_len - unat msg_len) * unat l) 0)
          else None)"

text \<open>
  Modelled from the spec: \<^verbatim>\<open>preprocess_systematic_bits_avx2\<close> derives the auxiliary
  representation that the kernels need; it is kept beside the block-columns, which it
  leaves as they are, and is not tracked.
\<close>

definition preprocess_systematic_bits_avx2 :: "encoder \<Rightarrow> encoder option" where
  "preprocess_systematic_bits_avx2 q = (if ptr q = None then None else Some q)"

text \<open>Modelled from the spec: \<^verbatim>\<open>preprocess_systematic_bits_avx2long\<close>, likewise.\<close>

definition preprocess_systematic_bits_avx2long :: "encoder \<Rightarrow> encoder option" where
  "preprocess_systematic_bits_avx2long q = (if ptr q = None then None else Some q)"

text \<open>
  Modelled from the spec: the eight vectorised high-rate kernels, called through
  \<^verbatim>\<open>q->encode_high_rate_avx2\<close>. Each computes the first 4 parity block-columns, from
  the state it is called in, into the working buffer.
\<close>

definition call_encode_high_rate_avx2 :: "env \<Rightarrow> hr_avx2_fn \<Rightarrow> encoder \<Rightarrow> encoder option" where
  "call_encode_high_rate_avx2 E f q =
     do {
       q0 \<leftarrow> write_node (core_parity_avx2 E f q 0) q (unat (bgK q));
       q1 \<leftarrow> write_node (core_parity_avx2 E f q 1) q0 (unat (bgK q) + 1);
       q2 \<leftarrow> write_node (core_parity_avx2 E f q 2) q1 (unat (bgK q) + 2);
       write_node (core_parity_avx2 E f q 3) q2 (unat (bgK q) + 3)
     }"

text \<open>
  Modelled from the spec: the loop of the vectorised extension-region kernels. Parity
  layer \<open>m\<close> is block-column \<open>bgK + m\<close>, computed from the state that the earlier layers
  left; \<open>par\<close> gives its bits.
\<close>

function ext_loop_avx2 ::
  "(encoder \<Rightarrow> nat \<Rightarrow> nat \<Rightarrow> 8 word) \<Rightarrow> encoder \<Rightarrow> nat \<Rightarrow> nat \<Rightarrow> encoder option" where
  "ext_loop_avx2 par q n m =
     (if m < n then
        do {
          q' \<leftarrow> write_node (par q m) q (unat (bgK q) + m);
          ext_loop_avx2 par q' n (m + 1)
        }
      else Some q)"
  by pat_completeness auto
termination
  by (relation "measure (\<lambda>(par, q, n, m). n - m)") auto

text \<open>
  Modelled from the spec: \<^verbatim>\<open>encode_ext_region_avx2\<close> runs \<^verbatim>\<open>n_layers - 4\<close> iterations when
  \<^verbatim>\<open>n_layers > 4\<close> and none otherwise.
\<close>

definition encode_ext_region_avx2 :: "env \<Rightarrow> encoder \<Rightarrow> 8 word \<Rightarrow> encoder option" where
  "encode_ext_region_avx2 E q n_layers = ext_loop_avx2 (ext_parity_avx2 E) q (unat n_layers) 4"

text \<open>Modelled from the spec: \<^verbatim>\<open>encode_ext_region_avx2long\<close>, likewise.\<close>

definition encode_ext_region_avx2long :: "env \<Rightarrow> encoder \<Rightarrow> 8 word \<Rightarrow> encoder option" where
  "encode_ext_region_avx2long E q n_layers =
     ext_loop_avx2 (ext_parity_avx2long E) q (unat n_layers) 4"

text \<open>
  Modelled from the spec: \<^verbatim>\<open>return_codeword_avx2\<close> emits the codeword, that is the first
  \<open>cdwd_len\<close> block-columns of the working buffer without the two punctured ones, at
  the start of the output buffer.
\<close>

definition return_codeword_avx2 ::
  "8 word list option \<Rightarrow> 8 word list \<Rightarrow> int \<Rightarrow> 16 word \<Rightarrow> 8 word list option" where
  "return_codeword_avx2 p output cdwd_len l =
     (case p of
        None \<Rightarrow> None
      | Some buf \<Rightarrow>
          (let n = nat ((cdwd_len - 2) * uint l) in
           if n = 0 then Some output
           else if 2 * unat l + n \<le> length buf \<and> n \<le> length output
           then Some (take n (drop (2 * unat l) buf) @ drop n output)
           else None))"

text \<open>Modelled from the spec: \<^verbatim>\<open>return_codeword_avx2long\<close>, likewise.\<close>

definition return_codeword_avx2long ::
  "8 word list option \<Rightarrow> 8 word list \<Rightarrow> int \<Rightarrow> 16 word \<Rightarrow> 8 word list option" where
  "return_codeword_avx2long p output cdwd_len l =
     (case p of
        None \<Rightarrow> None
      | Some buf \<Rightarrow>
          (let n = nat ((cdwd_len - 2) * uint l) in
           if n = 0 then Some output
           else if 2 * unat l + n \<le> length buf \<and> n \<le> length output
           then Some (take n (drop (2 * unat l) buf) @ drop n output)
           else None))"

text \<open>\<^verbatim>\<open>encode_avx2\<close> and \<^verbatim>\<open>encode_avx2long\<close>, with the result of \<^verbatim>\<open>encode_c\<close>.\<close>

definition encode_avx2 ::
  "env \<Rightarrow> encoder \<Rightarrow> 8 word list \<Rightarrow> 8 word list \<Rightarrow> 32 word \<Rightarrow> 32 word
     \<Rightarrow> (int \<times> encoder \<times> 8 word list) option" where
  "encode_avx2 E q input output input_length cdwd_rm_length =
     (if bgK q = 0 then None
      else if input_length div ucast (bgK q) \<noteq> ucast (ls q) then Some (-1, q, output)
      else
        do {
          c \<leftarrow> rm_length q cdwd_rm_length;
          buf \<leftarrow> load_avx2 (ptr q) input (bgK q) (bgN q) (ls q);
          q1 \<leftarrow> preprocess_systematic_bits_avx2 (q\<lparr>ptr := Some buf\<rparr>);
          f \<leftarrow> encode_high_rate_avx2 q1;
          q2 \<leftarrow> call_encode_high_rate_avx2 E f q1;
          q3 \<leftarrow> encode_ext_region_avx2 E q2 (n_layers_of q2 c);
          out' \<leftarrow> return_codeword_avx2 (ptr q3) output
                    (uint (n_layers_of q2 c) + uint (bgK q3)) (ls q3);
          Some (0, q3, out')
        })"

definition encode_avx2long ::
  "env \<Rightarrow> encoder \<Rightarrow> 8 word list \<Rightarrow> 8 word list \<Rightarrow> 32 word \<Rightarrow> 32 word
     \<Rightarrow> (int \<times> encoder \<times> 8 word list) option" where
  "encode_avx2long E q input output input_length cdwd_rm_length =
     (if bgK q = 0 then None
      else if input_length div ucast (bgK q) \<noteq> ucast (ls q) then Some (-1, q, output)
      else
        do {
          c \<leftarrow> rm_length q cdwd_rm_length;
          buf \<leftarrow> load_avx2long (ptr q) input (bgK q) (bgN q) (ls q);
          q1 \<leftarrow> preprocess_systematic_bits_avx2long (q\<lparr>ptr := Some buf\<rparr>);
          f \<leftarrow> encode_high_rate_avx2 q1;
          q2 \<leftarrow> call_encode_high_rate_avx2 E f q1;
          q3 \<leftarrow> encode_ext_region_avx2long E q2 (n_layers_of q2 c);
          out' \<leftarrow> return_codeword_avx2long (ptr q3) output
                    (uint (n_layers_of q2 c) + uint (bgK q3)) (ls q3);
          Some (0, q3, out')
        })"

subsection \<open>The public operations\<close>

fun call_encode ::
  "env \<Rightarrow> encode_fn \<Rightarrow> encoder \<Rightarrow> 8 word list \<Rightarrow> 8 word list \<Rightarrow> 32 word \<Rightarrow> 32 word
     \<Rightarrow> (int \<times> encoder \<times> 8 word list) option" where
  "call_encode E P_encode_c q input output il c = encode_c E q input output il c"
| "call_encode E P_encode_avx2 q input output il c = encode_avx2 E q input output il c"
| "call_encode E P_encode_avx2long q input output il c = encode_avx2long E q input output il c"

definition srslte_ldpc_encoder_encode ::
  "env \<Rightarrow> encoder \<Rightarrow> 8 word list \<Rightarrow> 8 word list \<Rightarrow> 32 word
     \<Rightarrow> (int \<times> encoder \<times> 8 word list) option" where
  "srslte_ldpc_encoder_encode E q input output input_length =
     do {
       f \<leftarrow> encode q;
       call_encode E f q input output input_length (ucast (liftN q) - 2 * ucast (ls q))
     }"

definition srslte_ldpc_encoder_encode_rm ::
  "env \<Rightarrow> encoder \<Rightarrow> 8 word list \<Rightarrow> 8 word list \<Rightarrow> 32 word \<Rightarrow> 32 word
     \<Rightarrow> (int \<times> encoder \<times> 8 word list) option" where
  "srslte_ldpc_encoder_encode_rm E q input output input_length cdwd_rm_length =
     do {
       f \<leftarrow> encode q;
       call_encode E f q input output input_length cdwd_rm_length
     }"

subsection \<open>Assumptions on the parameters, and the instance invariant\<close>

text \<open>
  What the proofs need of the macros and of the classifier: each base graph has at least
  4 check nodes (the high-rate region) and at least 2 more variable nodes than check
  nodes (the two punctured systematic ones), its dimensions fit the 8-bit fields, and a
  lifting size that the classifier accepts is positive and small enough for the lifted
  dimensions to fit the 16-bit fields.
\<close>

definition env_ok :: "env \<Rightarrow> 16 word \<Rightarrow> bool" where
  "env_ok E l \<longleftrightarrow>
     4 \<le> BG1M E \<and> BG1M E + 2 \<le> BG1Nfull E \<and> BG1Nfull E < 256 \<and>
     4 \<le> BG2M E \<and> BG2M E + 2 \<le> BG2Nfull E \<and> BG2Nfull E < 256 \<and>
     (get_ls_index E l \<noteq> VOID_LIFTSIZE E \<longrightarrow>
        0 < unat l \<and> unat l * BG1Nfull E < 65536 \<and> unat l * BG2Nfull E < 65536)"

text \<open>The relations between the dimensions of an initialised instance.\<close>

definition dims_ok :: "encoder \<Rightarrow> bool" where
  "dims_ok q \<longleftrightarrow>
     0 < unat (ls q) \<and> 4 \<le> unat (bgM q) \<and> 2 \<le> unat (bgK q) \<and>
     unat (bgN q) = unat (bgK q) + unat (bgM q) \<and>
     unat (liftN q) = unat (ls q) * unat (bgN q)"

text \<open>
  The normalisation in the words of the specification, on natural numbers: clamp the
  request down to \<open>liftN - 2 * ls\<close>, raise the result to \<open>(bgK + 2) * ls\<close>, round that
  up to the next multiple of \<open>ls\<close>.
\<close>

definition spec_round_up :: "nat \<Rightarrow> nat \<Rightarrow> nat" where
  "spec_round_up m n = ((n + m - 1) div m) * m"

definition spec_normalize :: "nat \<Rightarrow> nat \<Rightarrow> nat \<Rightarrow> nat \<Rightarrow> nat" where
  "spec_normalize K L N n = spec_round_up L (max ((K + 2) * L) (min n (N - 2 * L)))"

subsection \<open>An instance of the parameters\<close>

text \<open>
  For evaluating the model on concrete inputs: the dimensions of the two base graphs of
  3GPP TS 38.212 (46 by 68 and 42 by 52 blocks), its eight sets of lifting sizes,
  allocators that succeed, and stand-ins for the bits that depend on the base-graph
  table (every parity bit 0, as for the all-zero message).
\<close>

definition nr_ls_index :: "16 word \<Rightarrow> int" where
  "nr_ls_index z =
     (if z \<in> set [2, 4, 8, 16, 32, 64, 128, 256] then 0
      else if z \<in> set [3, 6, 12, 24, 48, 96, 192, 384] then 1
      else if z \<in> set [5, 10, 20, 40, 80, 160, 320] then 2
      else if z \<in> set [7, 14, 28, 56, 112, 224] then 3
      else if z \<in> set [9, 18, 36, 72, 144, 288] then 4
      else if z \<in> set [11, 22, 44, 88, 176, 352] then 5
      else if z \<in> set [13, 26, 52, 104, 208] then 6
      else if z \<in> set [15, 30, 60, 120, 240] then 7
      else 255)"

definition nr_env :: env where
  "nr_env =
     \<lparr>BG1Nfull = 68, BG1M = 46, BG2Nfull = 52, BG2M = 42, VOID_LIFTSIZE = 255,
      SRSLTE_AVX2_B_SIZE = 32, LV_HAVE_AVX2 = True, get_ls_index = nr_ls_index,
      srslte_vec_u16_malloc = (\<lambda>n. Some (replicate n 0)),
      srslte_vec_u8_malloc = (\<lambda>n. Some (replicate n 0)),
      create_compact_pcm = (\<lambda>t b l. (0, t)),
      create_ldpc_enc_avx2 = (\<lambda>q. Some (replicate (unat (bgN q) * unat (ls q)) 0)),
      create_ldpc_enc_avx2long = (\<lambda>q. Some (replicate (unat (bgN q) * unat (ls q)) 0)),
      systematic_aux = (\<lambda>q input. input),
      core_parity = (\<lambda>f q m k. 0),
      ext_parity = (\<lambda>q cw m k. 0),
      core_parity_avx2 = (\<lambda>f q m k. 0),
      ext_parity_avx2 = (\<lambda>q m k. 0),
      ext_parity_avx2long = (\<lambda>q m k. 0)\<rparr>"

text \<open>The portable encoder for base graph 2 and lifting size 2, as the initialiser leaves it.\<close>

definition bg2_q :: encoder where
  "bg2_q =
     \<lparr>ptr = Some (replicate 84 0), bg = 1, ls = 2, bgN = 52, liftN = 104, bgM = 42,
      liftM = 84, bgK = 10, liftK = 20, pcm = Some (replicate 2184 0),
      free = Some P_free_enc_c, encode = Some P_encode_c,
      encode_high_rate = Some P_encode_high_rate_case3, encode_high_rate_avx2 = None\<rparr>"

text \<open>The same configuration on the vectorised tier for small lifting sizes.\<close>

definition bg2_q_avx2 :: encoder where
  "bg2_q_avx2 =
     \<lparr>ptr = Some (replicate 104 0), bg = 1, ls = 2, bgN = 52, liftN = 104, bgM = 42,
      liftM = 84, bgK = 10, liftK = 20, pcm = Some (replicate 2184 0),
      free = Some P_free_enc_avx2, encode = Some P_encode_avx2,
      encode_high_rate = None,
      encode_high_rate_avx2 = Some P_encode_high_rate_case3_avx2\<rparr>"

subsection \<open>Observing the kernel that initialisation selected\<close>

fun variant_of_hr :: "hr_fn \<Rightarrow> nat" where
  "variant_of_hr P_encode_high_rate_case1 = 1"
| "variant_of_hr P_encode_high_rate_case2 = 2"
| "variant_of_hr P_encode_high_rate_case3 = 3"
| "variant_of_hr P_encode_high_rate_case4 = 4"

text \<open>The variant of a kernel of the tier for small lifting sizes; \<open>None\<close> for a kernel
  of the other vectorised tier.\<close>

fun variant_of_hr_avx2 :: "hr_avx2_fn \<Rightarrow> nat option" where
  "variant_of_hr_avx2 P_encode_high_rate_case1_avx2 = Some 1"
| "variant_of_hr_avx2 P_encode_high_rate_case2_avx2 = Some 2"
| "variant_of_hr_avx2 P_encode_high_rate_case3_avx2 = Some 3"
| "variant_of_hr_avx2 P_encode_high_rate_case4_avx2 = Some 4"
| "variant_of_hr_avx2 P_encode_high_rate_case1_avx2long = None"
| "variant_of_hr_avx2 P_encode_high_rate_case2_avx2long = None"
| "variant_of_hr_avx2 P_encode_high_rate_case3_avx2long = None"
| "variant_of_hr_avx2 P_encode_high_rate_case4_avx2long = None"

fun variant_of_hr_avx2long :: "hr_avx2_fn \<Rightarrow> nat option" where
  "variant_of_hr_avx2long P_encode_high_rate_case1_avx2 = None"
| "variant_of_hr_avx2long P_encode_high_rate_case2_avx2 = None"
| "variant_of_hr_avx2long P_encode_high_rate_case3_avx2 = None"
| "variant_of_hr_avx2long P_encode_high_rate_case4_avx2 = None"
| "variant_of_hr_avx2long P_encode_high_rate_case1_avx2long = Some 1"
| "variant_of_hr_avx2long P_encode_high_rate_case2_avx2long = Some 2"
| "variant_of_hr_avx2long P_encode_high_rate_case3_avx2long = Some 3"
| "variant_of_hr_avx2long P_encode_high_rate_case4_avx2long = Some 4"

text \<open>
  The variant behind the high-rate pointer of the tier whose encoder is bound; \<open>None\<close>
  when no encoder is bound, or the pointer is null or belongs to another tier.
\<close>

definition resolved_variant :: "encoder \<Rightarrow> nat option" where
  "resolved_variant q =
     (case encode q of
        None \<Rightarrow> None
      | Some P_encode_c \<Rightarrow> map_option variant_of_hr (encode_high_rate q)
      | Some P_encode_avx2 \<Rightarrow> Option.bind (encode_high_rate_avx2 q) variant_of_hr_avx2
      | Some P_encode_avx2long \<Rightarrow> Option.bind (encode_high_rate_avx2 q) variant_of_hr_avx2long)"

text \<open>
  The tier that the caller's preference and the lifting size resolve to; \<open>None\<close> for a
  preference that is not supported (or not compiled in).
\<close>

definition tier_of :: "env \<Rightarrow> srslte_ldpc_encoder_type_t \<Rightarrow> 16 word \<Rightarrow> encode_fn option" where
  "tier_of E ty l =
     (case ty of
        SRSLTE_LDPC_ENCODER_C \<Rightarrow> Some P_encode_c
      | SRSLTE_LDPC_ENCODER_AVX2 \<Rightarrow>
          if LV_HAVE_AVX2 E
          then Some (if unat l \<le> SRSLTE_AVX2_B_SIZE E then P_encode_avx2 else P_encode_avx2long)
          else None
      | SRSLTE_LDPC_ENCODER_OTHER _ \<Rightarrow> None)"

text \<open>No allocation fails and the table is built.\<close>

definition resources_ok :: "env \<Rightarrow> bool" where
  "resources_ok E \<longleftrightarrow>
     (\<forall>n. srslte_vec_u16_malloc E n \<noteq> None) \<and>
     (\<forall>t b l. fst (create_compact_pcm E t b l) = 0) \<and>
     (\<forall>n. srslte_vec_u8_malloc E n \<noteq> None) \<and>
     (\<forall>q. create_ldpc_enc_avx2 E q \<noteq> None) \<and>
     (\<forall>q. create_ldpc_enc_avx2long E q \<noteq> None)"

text \<open>The size class of a lifting size: \<open>None\<close> when the classifier rejects it.\<close>

definition ls_class :: "env \<Rightarrow> 16 word \<Rightarrow> int option" where
  "ls_class E l =
     (if get_ls_index E l = VOID_LIFTSIZE E then None else Some (get_ls_index E l))"

text \<open>
  The selection rule in the words of the specification; the special size class of base
  graph 1 is index 6, the two special classes of base graph 2 are indices 3 and 7.
  \<open>None\<close> is the initialisation error of any other combination.
\<close>

definition spec_variant :: "int \<Rightarrow> int option \<Rightarrow> nat option" where
  "spec_variant b sc =
     (case sc of
        None \<Rightarrow> None
      | Some i \<Rightarrow>
          if b = BG1 \<and> i \<noteq> 6 then Some 1
          else if b = BG1 \<and> i = 6 then Some 2
          else if b = BG2 \<and> i \<notin> {3, 7} then Some 3
          else if b = BG2 \<and> i \<in> {3, 7} then Some 4
          else None)"

text \<open>A message of 20 bits for that encoder.\<close>

definition bits20 :: "8 word list" where
  "bits20 = [1, 0, 1, 1, 0, 0, 1, 0, 1, 1, 0, 1, 0, 0, 1, 1, 1, 0, 0, 1]"

section \<open>Properties\<close>

subsection \<open>Word arithmetic and the dimensions after initialisation\<close>

lemma init_c_fields:
  assumes "init_c E q = (0, q', rs)"
  shows "get_ls_index E (ls q) \<noteq> VOID_LIFTSIZE E \<and> ls q' = ls q \<and> bgN q' = bgN q \<and>
         bgM q' = bgM q \<and> bgK q' = bgK q \<and> liftN q' = liftN q \<and> bg q' = bg q"
  using assms by (auto simp: init_c_def Let_def split: if_splits option.splits)

lemma init_avx2_fields:
  assumes "init_avx2 E q = (0, q', rs)"
  shows "get_ls_index E (ls q) \<noteq> VOID_LIFTSIZE E \<and> ls q' = ls q \<and> bgN q' = bgN q \<and>
         bgM q' = bgM q \<and> bgK q' = bgK q \<and> liftN q' = liftN q \<and> bg q' = bg q"
  using assms by (auto simp: init_avx2_def Let_def split: if_splits option.splits)

lemma init_avx2long_fields:
  assumes "init_avx2long E q = (0, q', rs)"
  shows "get_ls_index E (ls q) \<noteq> VOID_LIFTSIZE E \<and> ls q' = ls q \<and> bgN q' = bgN q \<and>
         bgM q' = bgM q \<and> bgK q' = bgK q \<and> liftN q' = liftN q \<and> bg q' = bg q"
  using assms by (auto simp: init_avx2long_def Let_def split: if_splits option.splits)

lemma set_dimensions_fields:
  "ls (set_dimensions E q b l) = l"
  "bg (set_dimensions E q b l) = b"
  "bgN (set_dimensions E q b l) = of_nat (if b = BG1 then BG1Nfull E else BG2Nfull E)"
  "bgM (set_dimensions E q b l) = of_nat (if b = BG1 then BG1M E else BG2M E)"
  "bgK (set_dimensions E q b l) =
     of_nat (if b = BG1 then BG1Nfull E else BG2Nfull E) - of_nat (if b = BG1 then BG1M E else BG2M E)"
  "liftN (set_dimensions E q b l) = l * ucast (of_nat (if b = BG1 then BG1Nfull E else BG2Nfull E) :: 8 word)"
  by (simp_all add: set_dimensions_def Let_def)

lemma unat_ucast_8_16: "unat (ucast (w :: 8 word) :: 16 word) = unat w"
proof -
  have "unat w < 2 ^ 8" using unsigned_less [of w] by simp
  then have "unat w < 2 ^ 16" by simp
  then show ?thesis by (simp add: unsigned_ucast_eq take_bit_nat_eq_self)
qed

lemma unat_ucast_8_32: "unat (ucast (w :: 8 word) :: 32 word) = unat w"
proof -
  have "unat w < 2 ^ 8" using unsigned_less [of w] by simp
  then have "unat w < 2 ^ 32" by simp
  then show ?thesis by (simp add: unsigned_ucast_eq take_bit_nat_eq_self)
qed

lemma unat_ucast_16_32: "unat (ucast (w :: 16 word) :: 32 word) = unat w"
proof -
  have "unat w < 2 ^ 16" using unsigned_less [of w] by simp
  then have "unat w < 2 ^ 32" by simp
  then show ?thesis by (simp add: unsigned_ucast_eq take_bit_nat_eq_self)
qed

lemma dims_ok_set_dimensions:
  assumes "N < 256" "4 \<le> M" "M + 2 \<le> N" "0 < unat l" "unat l * N < 65536"
    and "bgN q = of_nat N" "bgM q = of_nat M" "bgK q = of_nat N - of_nat M"
    and "ls q = l" "liftN q = l * ucast (of_nat N :: 8 word)"
  shows "dims_ok q"
proof -
  have n: "unat (of_nat N :: 8 word) = N" using assms(1) by (simp add: unat_of_nat)
  have m: "unat (of_nat M :: 8 word) = M" using assms(1,3) by (simp add: unat_of_nat)
  have k: "unat (of_nat N - of_nat M :: 8 word) = N - M"
    using assms(1,3) n m by (simp add: unat_sub word_le_nat_alt)
  have u: "unat (ucast (of_nat N :: 8 word) :: 16 word) = N"
    using n by (simp add: unat_ucast_8_16)
  have "unat (l * ucast (of_nat N :: 8 word) :: 16 word) = unat l * N"
    using assms(5) u by (simp add: unat_word_ariths)
  then show ?thesis
    using assms n m k by (simp add: dims_ok_def)
qed


lemma init_dims:
  assumes i: "srslte_ldpc_encoder_init E q0 ty b l = (0, q, rs)" and e: "env_ok E l"
  shows "dims_ok q"
proof -
  from i have b: "b = BG1 \<or> b = BG2"
    by (auto simp: srslte_ldpc_encoder_init_def split: if_splits)
  define N where "N = (if b = BG1 then BG1Nfull E else BG2Nfull E)"
  define M where "M = (if b = BG1 then BG1M E else BG2M E)"
  from i b obtain t where
    t: "init_c E ((set_dimensions E q0 b l)\<lparr>pcm := Some t\<rparr>) = (0, q, rs) \<or>
        init_avx2 E ((set_dimensions E q0 b l)\<lparr>pcm := Some t\<rparr>) = (0, q, rs) \<or>
        init_avx2long E ((set_dimensions E q0 b l)\<lparr>pcm := Some t\<rparr>) = (0, q, rs)"
    by (auto simp: srslte_ldpc_encoder_init_def Let_def
          split: if_splits option.splits prod.splits srslte_ldpc_encoder_type_t.splits)
  let ?q9 = "(set_dimensions E q0 b l)\<lparr>pcm := Some t\<rparr>"
  from t have f: "get_ls_index E (ls ?q9) \<noteq> VOID_LIFTSIZE E \<and> ls q = ls ?q9 \<and>
      bgN q = bgN ?q9 \<and> bgM q = bgM ?q9 \<and> bgK q = bgK ?q9 \<and> liftN q = liftN ?q9"
    using init_c_fields [of E ?q9 q rs] init_avx2_fields [of E ?q9 q rs]
      init_avx2long_fields [of E ?q9 q rs] by blast
  then have v: "get_ls_index E l \<noteq> VOID_LIFTSIZE E"
    by (simp add: set_dimensions_fields)
  from f have g: "bgN q = of_nat N" "bgM q = of_nat M" "bgK q = of_nat N - of_nat M"
    "ls q = l" "liftN q = l * ucast (of_nat N :: 8 word)"
    by (simp_all add: set_dimensions_fields N_def M_def)
  from e v have h: "N < 256" "4 \<le> M" "M + 2 \<le> N" "0 < unat l" "unat l * N < 65536"
    by (auto simp: env_ok_def N_def M_def)
  show ?thesis by (rule dims_ok_set_dimensions [OF h g])
qed

lemma div_mult_add_less: "r < m \<Longrightarrow> (k * m + r) div (m::nat) = k"
  by simp

lemma spec_round_up_eq:
  assumes "0 < m"
  shows "spec_round_up m n = (if n mod m \<noteq> 0 then (n div m + 1) * m else n)"
proof (cases "n mod m = 0")
  case True
  then have "m dvd n" by (simp add: mod_eq_0_iff_dvd)
  then obtain k where "n = m * k" ..
  then have k: "n = k * m" by (simp only: mult.commute)
  have e1: "k * m + m - 1 = k * m + (m - 1)" using assms by simp
  have e2: "(k * m + (m - 1)) div m = k"
    by (rule div_mult_add_less) (use assms in simp)
  have "(k * m + m - 1) div m = k" by (simp only: e1 e2)
  with True k show ?thesis by (simp add: spec_round_up_def)
next
  case False
  define r where "r = n mod m"
  define d where "d = n div m"
  have n: "n = d * m + r" by (simp add: r_def d_def)
  have r: "0 < r" "r < m" using False assms by (simp_all add: r_def)
  have e1: "n + m - 1 = (d + 1) * m + (r - 1)" using n r by (simp add: algebra_simps)
  have e2: "((d + 1) * m + (r - 1)) div m = d + 1"
    by (rule div_mult_add_less) (use r in simp)
  have "(n + m - 1) div m = d + 1" by (simp only: e1 e2)
  with False show ?thesis by (simp add: spec_round_up_def d_def)
qed

text \<open>Rounding up gives the least multiple that is not below the argument.\<close>

lemma spec_round_up_least:
  assumes "0 < m"
  shows "n \<le> spec_round_up m n" and "spec_round_up m n mod m = 0"
    and "n \<le> k * m \<Longrightarrow> spec_round_up m n \<le> k * m"
proof -
  have lt: "n < (n div m + 1) * m"
    using assms by (metis Suc_eq_plus1 dividend_less_div_times mult.commute mult_Suc)
  show "n \<le> spec_round_up m n" using assms lt by (simp add: spec_round_up_eq)
  show "spec_round_up m n mod m = 0" using assms by (simp add: spec_round_up_eq)
  show "spec_round_up m n \<le> k * m" if le: "n \<le> k * m"
  proof (cases "n mod m = 0")
    case True
    then show ?thesis using assms le by (simp add: spec_round_up_eq)
  next
    case False
    have "n \<noteq> k * m" using False by auto
    with le have "n < k * m" by simp
    then have "n div m < k" using assms by (simp add: div_less_iff_less_mult)
    then have "n div m + 1 \<le> k" by simp
    then have "(n div m + 1) * m \<le> k * m" by (rule mult_le_mono1)
    with False show ?thesis using assms by (simp add: spec_round_up_eq)
  qed
qed

lemma rm_length_unat:
  assumes d: "dims_ok q"
  shows "\<exists>c'. rm_length q c = Some c' \<and>
           unat c' = spec_normalize (unat (bgK q)) (unat (ls q)) (unat (liftN q)) (unat c)"
proof -
  define L where "L = unat (ls q)"
  define K where "K = unat (bgK q)"
  define M where "M = unat (bgM q)"
  define N where "N = unat (liftN q)"
  from d have L: "0 < L" and M: "4 \<le> M" and N: "N = L * (K + M)"
    by (simp_all add: dims_ok_def L_def K_def M_def N_def)
  have Lb: "L < 65536" using unsigned_less [of "ls q"] by (simp add: L_def)
  have Kb: "K < 256" using unsigned_less [of "bgK q"] by (simp add: K_def)
  have Nb: "N < 65536" using unsigned_less [of "liftN q"] by (simp add: N_def)
  have uL: "unat (ucast (ls q) :: 32 word) = L" by (simp add: unat_ucast_16_32 L_def)
  have uK: "unat (ucast (bgK q) :: 32 word) = K" by (simp add: unat_ucast_8_32 K_def)
  have uN: "unat (ucast (liftN q) :: 32 word) = N" by (simp add: unat_ucast_16_32 N_def)
  have u2L: "unat (2 * ucast (ls q) :: 32 word) = 2 * L"
    using Lb uL by (simp add: unat_word_ariths)
  have LM: "4 * L \<le> L * M" using M by simp
  have NN: "N = L * K + L * M" using N by (simp add: distrib_left)
  have KL: "(K + 2) * L = L * K + 2 * L" by (simp add: algebra_simps)
  have le: "2 * L \<le> N" using NN LM by linarith
  define hi :: "32 word" where "hi = ucast (liftN q) - 2 * ucast (ls q)"
  define lo :: "32 word" where "lo = (ucast (bgK q) + 2) * ucast (ls q)"
  have uhi: "unat hi = N - 2 * L"
    unfolding hi_def using le uN u2L by (simp add: unat_sub word_le_nat_alt)
  have uK2: "unat (ucast (bgK q) + 2 :: 32 word) = K + 2"
    using Kb uK by (simp add: unat_word_ariths)
  have "(K + 2) * L < 258 * 65536" using Kb Lb by (intro mult_strict_mono) simp_all
  then have ulo: "unat lo = (K + 2) * L"
    unfolding lo_def using uK2 uL by (simp add: unat_word_ariths)
  have lohi: "(K + 2) * L \<le> N - 2 * L" using NN LM KL by linarith
  define c1 where "c1 = (if c > hi then hi else c)"
  define c2 where "c2 = (if c1 < lo then lo else c1)"
  have uc1: "unat c1 = min (unat c) (N - 2 * L)"
    by (auto simp: c1_def word_less_nat_alt uhi)
  have uc2: "unat c2 = max ((K + 2) * L) (unat c1)"
    by (auto simp: c2_def word_less_nat_alt ulo)
  have c2b: "unat c2 \<le> N - 2 * L" using uc1 uc2 lohi by simp
  have mod: "unat (c2 mod ucast (ls q)) = unat c2 mod L" by (simp add: unat_mod uL)
  have dv: "unat (c2 div ucast (ls q)) = unat c2 div L" by (simp add: unat_div uL)
  have "unat c2 div L \<le> unat c2" by simp
  with c2b Nb have dvb: "unat c2 div L < 65536" by linarith
  have dv1: "unat (c2 div ucast (ls q) + 1) = unat c2 div L + 1"
    using dvb dv by (simp add: unat_word_ariths)
  have "unat c2 div L * L \<le> unat c2" by simp
  moreover have "(unat c2 div L + 1) * L = unat c2 div L * L + L" by (simp add: algebra_simps)
  ultimately have "(unat c2 div L + 1) * L < 131072" using c2b Nb Lb by linarith
  then have up: "unat ((c2 div ucast (ls q) + 1) * ucast (ls q)) = (unat c2 div L + 1) * L"
    using dv1 uL by (simp add: unat_word_ariths)
  have nz: "ls q \<noteq> 0" using L by (auto simp: L_def)
  have m0: "c2 mod ucast (ls q) = 0 \<longleftrightarrow> unat c2 mod L = 0"
    using mod by (metis unat_eq_0)
  have r: "rm_length q c =
      Some (if c2 mod ucast (ls q) \<noteq> 0 then (c2 div ucast (ls q) + 1) * ucast (ls q) else c2)"
    using nz by (simp add: rm_length_def Let_def c2_def c1_def hi_def lo_def)
  have "unat (if c2 mod ucast (ls q) \<noteq> 0 then (c2 div ucast (ls q) + 1) * ucast (ls q) else c2)
      = spec_round_up L (unat c2)"
    using L up m0 by (simp add: spec_round_up_eq)
  also have "\<dots> = spec_normalize K L N (unat c)"
    by (simp add: spec_normalize_def uc2 uc1)
  finally show ?thesis using r by (simp add: K_def L_def N_def)
qed

subsection \<open>The concrete instance\<close>

lemma nr_env_ok: "env_ok nr_env 2"
  by (simp add: env_ok_def nr_env_def)

lemma bg2_init:
  "srslte_ldpc_encoder_init nr_env bzero_encoder SRSLTE_LDPC_ENCODER_C BG2 2 = (0, bg2_q, [])"
  by (simp add: srslte_ldpc_encoder_init_def set_dimensions_def init_c_def nr_env_def
      nr_ls_index_def bzero_encoder_def bg2_q_def BG1_def BG2_def Let_def)

subsection \<open>The effective codeword length\<close>

lemma spec_normalize_bounds:
  assumes L: "0 < L" and N: "N = L * (K + M)" and M: "4 \<le> M"
  shows "spec_normalize K L N n mod L = 0"
    and "(K + 2) * L \<le> spec_normalize K L N n"
    and "spec_normalize K L N n \<le> N - 2 * L"
proof -
  define x where "x = max ((K + 2) * L) (min n (N - 2 * L))"
  have LM: "4 * L \<le> L * M" using M by simp
  have NN: "N = L * K + L * M" using N by (simp add: distrib_left)
  have KL: "(K + 2) * L = L * K + 2 * L" by (simp add: algebra_simps)
  have hi: "N - 2 * L = (K + M - 2) * L"
    using M by (simp add: N algebra_simps diff_mult_distrib2)
  have lohi: "(K + 2) * L \<le> N - 2 * L" using NN LM KL by linarith
  have xlo: "(K + 2) * L \<le> x" by (simp add: x_def)
  have xhi: "x \<le> (K + M - 2) * L" using lohi hi by (simp add: x_def)
  have v: "spec_normalize K L N n = (if x mod L \<noteq> 0 then (x div L + 1) * L else x)"
    using L by (simp add: spec_normalize_def x_def spec_round_up_eq)
  show "spec_normalize K L N n mod L = 0" by (simp add: v)
  have "x div L * L \<le> x" by simp
  have "x \<le> (x div L + 1) * L"
    using L by (metis Suc_eq_plus1 dividend_less_div_times less_or_eq_imp_le mult.commute
        mult_Suc)
  with xlo show "(K + 2) * L \<le> spec_normalize K L N n" by (auto simp: v)
  show "spec_normalize K L N n \<le> N - 2 * L"
  proof (cases "x mod L = 0")
    case True
    with xhi hi show ?thesis by (simp add: v)
  next
    case False
    have "x \<noteq> (K + M - 2) * L" using False by auto
    with xhi have "x < (K + M - 2) * L" by simp
    then have "x div L < K + M - 2" using L by (simp add: div_less_iff_less_mult)
    then have "x div L + 1 \<le> K + M - 2" by simp
    then have "(x div L + 1) * L \<le> (K + M - 2) * L" by (rule mult_le_mono1)
    with False hi show ?thesis by (simp add: v)
  qed
qed



subsection \<open>Normalisation, full rate and the number of layers\<close>

lemma encode_c_status:
  assumes "encode_c E q input output il c = Some (r, q', out')" and "r \<noteq> 0"
  shows "il div ucast (bgK q) \<noteq> ucast (ls q) \<and> r = -1 \<and> q' = q \<and> out' = output"
  using assms by (auto simp: encode_c_def bind_eq_Some_conv split: if_splits)

lemma encode_avx2_status:
  assumes "encode_avx2 E q input output il c = Some (r, q', out')" and "r \<noteq> 0"
  shows "il div ucast (bgK q) \<noteq> ucast (ls q) \<and> r = -1 \<and> q' = q \<and> out' = output"
  using assms by (auto simp: encode_avx2_def bind_eq_Some_conv split: if_splits)

lemma encode_avx2long_status:
  assumes "encode_avx2long E q input output il c = Some (r, q', out')" and "r \<noteq> 0"
  shows "il div ucast (bgK q) \<noteq> ucast (ls q) \<and> r = -1 \<and> q' = q \<and> out' = output"
  using assms by (auto simp: encode_avx2long_def bind_eq_Some_conv split: if_splits)

lemma call_encode_status:
  assumes "call_encode E f q input output il c = Some (r, q', out')" and "r \<noteq> 0"
  shows "il div ucast (bgK q) \<noteq> ucast (ls q) \<and> r = -1 \<and> q' = q \<and> out' = output"
  using assms encode_c_status encode_avx2_status encode_avx2long_status
  by (cases f) simp_all



lemma spec_normalize_full:
  assumes L: "0 < L" and N: "N = L * (K + M)" and M: "4 \<le> M"
  shows "spec_normalize K L N (N - 2 * L) = N - 2 * L"
proof -
  have LM: "4 * L \<le> L * M" using M by simp
  have NN: "N = L * K + L * M" using N by (simp add: distrib_left)
  have KL: "(K + 2) * L = L * K + 2 * L" by (simp add: algebra_simps)
  have hi: "N - 2 * L = (K + M - 2) * L"
    using M by (simp add: N algebra_simps diff_mult_distrib2)
  have lohi: "(K + 2) * L \<le> N - 2 * L" using NN LM KL by linarith
  have "spec_round_up L ((K + M - 2) * L) = (K + M - 2) * L"
    using L by (simp add: spec_round_up_eq)
  with lohi hi show ?thesis by (simp add: spec_normalize_def max_def)
qed

lemma unat_ucast_32_8:
  assumes "unat (x :: 32 word) < 256"
  shows "unat (ucast x :: 8 word) = unat x"
  using assms by (simp add: unsigned_ucast_eq take_bit_nat_eq_self)

lemma n_layers_unat:
  assumes d: "dims_ok q" and m: "unat c mod unat (ls q) = 0"
    and lo: "(unat (bgK q) + 2) * unat (ls q) \<le> unat c"
    and hi: "unat c \<le> unat (liftN q) - 2 * unat (ls q)"
  shows "unat (n_layers_of q c) + unat (bgK q) = unat c div unat (ls q) + 2"
    and "4 \<le> unat (n_layers_of q c)" and "unat (n_layers_of q c) \<le> unat (bgM q)"
proof -
  define L where "L = unat (ls q)"
  define K where "K = unat (bgK q)"
  define M where "M = unat (bgM q)"
  define N where "N = unat (liftN q)"
  define v where "v = unat c div L"
  from d have L: "0 < L" and M: "4 \<le> M" and N: "N = L * (K + M)"
    by (simp_all add: dims_ok_def L_def K_def M_def N_def)
  have Mb: "M < 256" using unsigned_less [of "bgM q"] by (simp add: M_def)
  have uL: "unat (ucast (ls q) :: 32 word) = L" by (simp add: unat_ucast_16_32 L_def)
  have uK: "unat (ucast (bgK q) :: 32 word) = K" by (simp add: unat_ucast_8_32 K_def)
  have hi': "N - 2 * L = (K + M - 2) * L"
    using M by (simp add: N algebra_simps diff_mult_distrib2)
  have "(K + 2) * L div L \<le> unat c div L" using lo by (intro div_le_mono) (simp add: K_def L_def)
  then have vlo: "K + 2 \<le> v" using L by (simp add: v_def)
  have "unat c div L \<le> (K + M - 2) * L div L"
    using hi hi' by (intro div_le_mono) (simp add: N_def L_def)
  then have vhi: "v \<le> K + M - 2" using L by (simp add: v_def)
  have dv: "unat (c div ucast (ls q)) = v" by (simp add: unat_div uL v_def)
  have sb: "unat (c div ucast (ls q) - ucast (bgK q)) = v - K"
    using vlo dv uK by (simp add: unat_sub word_le_nat_alt)
  have vb: "v - K + 2 \<le> M" using vlo vhi by linarith
  have p2: "unat (c div ucast (ls q) - ucast (bgK q) + 2) = v - K + 2"
    using sb vb Mb by (simp add: unat_word_ariths)
  have n: "unat (n_layers_of q c) = v - K + 2"
    unfolding n_layers_of_def using p2 vb Mb by (simp add: unat_ucast_32_8)
  show "unat (n_layers_of q c) + unat (bgK q) = unat c div unat (ls q) + 2"
    using n vlo by (simp add: K_def v_def L_def)
  show "4 \<le> unat (n_layers_of q c)" using n vlo by simp
  show "unat (n_layers_of q c) \<le> unat (bgM q)" using n vb by (simp add: M_def)
qed



text \<open>
  C9. The full-rate operation is the rate-matched operation called with the length
  \<open>liftN - 2 * ls\<close>: same status, same instance, same output buffer, for every
  instance and every input.
\<close>

theorem encode_is_encode_rm_full:
  "srslte_ldpc_encoder_encode E q input output il =
   srslte_ldpc_encoder_encode_rm E q input output il (ucast (liftN q) - 2 * ucast (ls q))"
  by (simp add: srslte_ldpc_encoder_encode_def srslte_ldpc_encoder_encode_rm_def)

text \<open>
  C10. The destructor leaves the whole structure zeroed, so its function pointer
  \<^verbatim>\<open>free\<close> is null; a second call on the same instance finds it null, skips the call
  and releases nothing.
\<close>

theorem free_twice_is_safe:
  "snd (srslte_ldpc_encoder_free q) = bzero_encoder \<and>
   free (snd (srslte_ldpc_encoder_free q)) = None \<and>
   srslte_ldpc_encoder_free (snd (srslte_ldpc_encoder_free q)) = ([], bzero_encoder)"
  by (simp add: srslte_ldpc_encoder_free_def bzero_encoder_def)

subsection \<open>Selection of the high-rate kernel\<close>

lemma init_c_variant:
  assumes "init_c E q = (0, q', rs)"
  shows "resolved_variant q' = spec_variant (bg q) (ls_class E (ls q)) \<and>
         resolved_variant q' \<noteq> None \<and> encode q' = Some P_encode_c"
  using assms
  by (auto simp: init_c_def Let_def resolved_variant_def spec_variant_def ls_class_def
      BG1_def BG2_def split: if_splits option.splits)

lemma init_avx2_variant:
  assumes "init_avx2 E q = (0, q', rs)"
  shows "resolved_variant q' = spec_variant (bg q) (ls_class E (ls q)) \<and>
         resolved_variant q' \<noteq> None \<and> encode q' = Some P_encode_avx2"
  using assms
  by (auto simp: init_avx2_def Let_def resolved_variant_def spec_variant_def ls_class_def
      BG1_def BG2_def split: if_splits option.splits)

lemma init_avx2long_variant:
  assumes "init_avx2long E q = (0, q', rs)"
  shows "resolved_variant q' = spec_variant (bg q) (ls_class E (ls q)) \<and>
         resolved_variant q' \<noteq> None \<and> encode q' = Some P_encode_avx2long"
  using assms
  by (auto simp: init_avx2long_def Let_def resolved_variant_def spec_variant_def ls_class_def
      BG1_def BG2_def split: if_splits option.splits)

lemma init_tier_fails:
  assumes "get_ls_index E (ls q) = VOID_LIFTSIZE E"
  shows "fst (init_c E q) = -1" "fst (init_avx2 E q) = -1" "fst (init_avx2long E q) = -1"
  using assms by (simp_all add: init_c_def init_avx2_def init_avx2long_def)

lemma init_c_success:
  assumes "get_ls_index E (ls q) \<noteq> VOID_LIFTSIZE E" and "bg q = BG1 \<or> bg q = BG2"
    and "srslte_vec_u8_malloc E (unat (bgM q) * unat (ls q)) \<noteq> None"
  shows "fst (init_c E q) = 0"
  using assms by (auto simp: init_c_def Let_def)

lemma init_avx2_success:
  assumes "get_ls_index E (ls q) \<noteq> VOID_LIFTSIZE E" and "bg q = BG1 \<or> bg q = BG2"
    and c: "\<And>q'. create_ldpc_enc_avx2 E q' \<noteq> None"
  shows "fst (init_avx2 E q) = 0"
  using assms(1,2) by (auto simp: init_avx2_def Let_def c)

lemma init_avx2long_success:
  assumes "get_ls_index E (ls q) \<noteq> VOID_LIFTSIZE E" and "bg q = BG1 \<or> bg q = BG2"
    and c: "\<And>q'. create_ldpc_enc_avx2long E q' \<noteq> None"
  shows "fst (init_avx2long E q) = 0"
  using assms(1,2) by (auto simp: init_avx2long_def Let_def c)

lemma spec_variant_None:
  "spec_variant b (ls_class E l) = None \<longleftrightarrow>
     (b \<noteq> BG1 \<and> b \<noteq> BG2) \<or> get_ls_index E l = VOID_LIFTSIZE E"
  by (auto simp: spec_variant_def ls_class_def BG1_def BG2_def)

lemma init_unfold:
  assumes b: "b = BG1 \<or> b = BG2"
    and a: "srslte_vec_u16_malloc E (unat (bgM (set_dimensions E q0 b l)) *
              unat (bgN (set_dimensions E q0 b l))) = Some t"
    and c: "create_compact_pcm E t b l = (0, t')"
  shows "srslte_ldpc_encoder_init E q0 ty b l =
     (case ty of
        SRSLTE_LDPC_ENCODER_C \<Rightarrow> init_c E ((set_dimensions E q0 b l)\<lparr>pcm := Some t'\<rparr>)
      | SRSLTE_LDPC_ENCODER_AVX2 \<Rightarrow>
          (if LV_HAVE_AVX2 E then
             (if unat l \<le> SRSLTE_AVX2_B_SIZE E
              then init_avx2 E ((set_dimensions E q0 b l)\<lparr>pcm := Some t'\<rparr>)
              else init_avx2long E ((set_dimensions E q0 b l)\<lparr>pcm := Some t'\<rparr>))
           else (-1, (set_dimensions E q0 b l)\<lparr>pcm := Some t'\<rparr>, []))
      | SRSLTE_LDPC_ENCODER_OTHER x \<Rightarrow> (-1, (set_dimensions E q0 b l)\<lparr>pcm := Some t'\<rparr>, []))"
  using b a c
  by (auto simp: srslte_ldpc_encoder_init_def Let_def set_dimensions_fields
      split: srslte_ldpc_encoder_type_t.splits)

lemma init_success:
  assumes r: "resources_ok E" and t: "tier_of E ty l = Some f"
    and v: "spec_variant b (ls_class E l) \<noteq> None"
  shows "fst (srslte_ldpc_encoder_init E q0 ty b l) = 0"
proof -
  from v have b: "b = BG1 \<or> b = BG2" and i: "get_ls_index E l \<noteq> VOID_LIFTSIZE E"
    using spec_variant_None [of b E l] by auto
  let ?q7 = "set_dimensions E q0 b l"
  have "srslte_vec_u16_malloc E (unat (bgM ?q7) * unat (bgN ?q7)) \<noteq> None"
    using r by (simp add: resources_ok_def)
  then obtain tb where a: "srslte_vec_u16_malloc E (unat (bgM ?q7) * unat (bgN ?q7)) = Some tb"
    by auto
  obtain rc t' where c0: "create_compact_pcm E tb b l = (rc, t')" by (cases "create_compact_pcm E tb b l")
  moreover have "fst (create_compact_pcm E tb b l) = 0" using r by (simp add: resources_ok_def)
  ultimately have "rc = 0" by simp
  with c0 have c: "create_compact_pcm E tb b l = (0, t')" by simp
  let ?q9 = "?q7\<lparr>pcm := Some t'\<rparr>"
  have f9: "get_ls_index E (ls ?q9) \<noteq> VOID_LIFTSIZE E" "bg ?q9 = BG1 \<or> bg ?q9 = BG2"
    using i b by (simp_all add: set_dimensions_fields)
  have m8: "srslte_vec_u8_malloc E (unat (bgM ?q9) * unat (ls ?q9)) \<noteq> None"
    using r by (simp add: resources_ok_def)
  have x1: "\<And>q'. create_ldpc_enc_avx2 E q' \<noteq> None"
    and x2: "\<And>q'. create_ldpc_enc_avx2long E q' \<noteq> None"
    using r by (simp_all add: resources_ok_def)
  note s1 = init_c_success [OF f9 m8] and s2 = init_avx2_success [OF f9 x1]
    and s3 = init_avx2long_success [OF f9 x2]
  show ?thesis
    unfolding init_unfold [OF b a c] using t s1 s2 s3
    by (auto simp: tier_of_def split: srslte_ldpc_encoder_type_t.splits if_splits)
qed

lemma init_tier:
  assumes "srslte_ldpc_encoder_init E q0 ty b l = (0, q, rs)"
  shows "encode q = tier_of E ty l"
proof -
  from assms have b: "b = BG1 \<or> b = BG2"
    by (auto simp: srslte_ldpc_encoder_init_def split: if_splits)
  from assms b obtain q9 where
    "ty = SRSLTE_LDPC_ENCODER_C \<and> init_c E q9 = (0, q, rs) \<or>
     ty = SRSLTE_LDPC_ENCODER_AVX2 \<and> LV_HAVE_AVX2 E \<and> unat l \<le> SRSLTE_AVX2_B_SIZE E \<and>
       init_avx2 E q9 = (0, q, rs) \<or>
     ty = SRSLTE_LDPC_ENCODER_AVX2 \<and> LV_HAVE_AVX2 E \<and> \<not> unat l \<le> SRSLTE_AVX2_B_SIZE E \<and>
       init_avx2long E q9 = (0, q, rs)"
    by (auto simp: srslte_ldpc_encoder_init_def Let_def
        split: if_splits option.splits prod.splits srslte_ldpc_encoder_type_t.splits)
  then show ?thesis
    using init_c_variant [of E q9 q rs] init_avx2_variant [of E q9 q rs]
      init_avx2long_variant [of E q9 q rs]
    by (auto simp: tier_of_def)
qed


text \<open>
  C4. When initialisation succeeds, the kernel bound to the instance is the one variant
  that the rule gives for the base graph and the size class of the lifting size: 1 for
  base graph 1 outside its special class, 2 for base graph 1 in it, 3 for base graph 2
  outside its two special classes, 4 for base graph 2 in one of them. For any other
  combination (another base graph, or a lifting size that the classifier rejects)
  initialisation returns the error status. And whenever the rule gives a variant, the
  tier is supported and no allocation fails, initialisation does succeed, binding that
  variant in the kernel of the resolved tier.
\<close>

theorem init_resolves_variant:
  "(srslte_ldpc_encoder_init E q0 ty b l = (0, q, rs) \<longrightarrow>
      resolved_variant q = spec_variant b (ls_class E l) \<and> resolved_variant q \<noteq> None) \<and>
   (spec_variant b (ls_class E l) = None \<longrightarrow>
      fst (srslte_ldpc_encoder_init E q0 ty b l) = -1) \<and>
   (resources_ok E \<and> tier_of E ty l \<noteq> None \<and> spec_variant b (ls_class E l) \<noteq> None \<longrightarrow>
      fst (srslte_ldpc_encoder_init E q0 ty b l) = 0 \<and>
      encode (fst (snd (srslte_ldpc_encoder_init E q0 ty b l))) = tier_of E ty l \<and>
      resolved_variant (fst (snd (srslte_ldpc_encoder_init E q0 ty b l)))
        = spec_variant b (ls_class E l))"
proof -
  have 1: "resolved_variant q' = spec_variant b (ls_class E l) \<and> resolved_variant q' \<noteq> None"
    if i: "srslte_ldpc_encoder_init E q0 ty b l = (0, q', rs')" for q' rs'
  proof -
    from i have b: "b = BG1 \<or> b = BG2"
      by (auto simp: srslte_ldpc_encoder_init_def split: if_splits)
    with i obtain t where
      t: "init_c E ((set_dimensions E q0 b l)\<lparr>pcm := Some t\<rparr>) = (0, q', rs') \<or>
          init_avx2 E ((set_dimensions E q0 b l)\<lparr>pcm := Some t\<rparr>) = (0, q', rs') \<or>
          init_avx2long E ((set_dimensions E q0 b l)\<lparr>pcm := Some t\<rparr>) = (0, q', rs')"
      by (auto simp: srslte_ldpc_encoder_init_def Let_def
            split: if_splits option.splits prod.splits srslte_ldpc_encoder_type_t.splits)
    let ?q9 = "(set_dimensions E q0 b l)\<lparr>pcm := Some t\<rparr>"
    have f: "ls ?q9 = l" "bg ?q9 = b" by (simp_all add: set_dimensions_fields)
    from t have "resolved_variant q' = spec_variant (bg ?q9) (ls_class E (ls ?q9)) \<and>
        resolved_variant q' \<noteq> None"
      using init_c_variant [of E ?q9 q' rs'] init_avx2_variant [of E ?q9 q' rs']
        init_avx2long_variant [of E ?q9 q' rs'] by blast
    then show ?thesis unfolding f .
  qed
  have 2: "fst (srslte_ldpc_encoder_init E q0 ty b l) = -1"
    if "spec_variant b (ls_class E l) = None"
  proof -
    from that have a: "(b \<noteq> BG1 \<and> b \<noteq> BG2) \<or> get_ls_index E l = VOID_LIFTSIZE E"
      by (simp add: spec_variant_None)
    show ?thesis
    proof (cases "b \<noteq> BG1 \<and> b \<noteq> BG2")
      case True
      then show ?thesis by (simp add: srslte_ldpc_encoder_init_def)
    next
      case False
      with a have v: "get_ls_index E l = VOID_LIFTSIZE E" by blast
      have "\<And>t. get_ls_index E (ls ((set_dimensions E q0 b l)\<lparr>pcm := Some t\<rparr>)) = VOID_LIFTSIZE E"
        using v by (simp add: set_dimensions_fields)
      then show ?thesis
        using False init_tier_fails
        by (auto simp: srslte_ldpc_encoder_init_def Let_def
            split: option.splits prod.splits srslte_ldpc_encoder_type_t.splits)
    qed
  qed
  have 3: "fst (srslte_ldpc_encoder_init E q0 ty b l) = 0 \<and>
      encode (fst (snd (srslte_ldpc_encoder_init E q0 ty b l))) = tier_of E ty l \<and>
      resolved_variant (fst (snd (srslte_ldpc_encoder_init E q0 ty b l)))
        = spec_variant b (ls_class E l)"
    if r: "resources_ok E" and t: "tier_of E ty l \<noteq> None"
      and v: "spec_variant b (ls_class E l) \<noteq> None"
  proof -
    from t obtain f where f: "tier_of E ty l = Some f" by auto
    have z: "fst (srslte_ldpc_encoder_init E q0 ty b l) = 0"
      by (rule init_success [OF r f v])
    obtain st q' rs' where e: "srslte_ldpc_encoder_init E q0 ty b l = (st, q', rs')"
      by (cases "srslte_ldpc_encoder_init E q0 ty b l")
    with z have i: "srslte_ldpc_encoder_init E q0 ty b l = (0, q', rs')" by simp
    show ?thesis using 1 [OF i] init_tier [OF i] by (simp add: i)
  qed
  show ?thesis
  proof (intro conjI impI)
    assume "srslte_ldpc_encoder_init E q0 ty b l = (0, q, rs)"
    then show "resolved_variant q = spec_variant b (ls_class E l)" "resolved_variant q \<noteq> None"
      using 1 by blast+
  next
    assume "spec_variant b (ls_class E l) = None"
    then show "fst (srslte_ldpc_encoder_init E q0 ty b l) = -1" by (rule 2)
  next
    assume a: "resources_ok E \<and> tier_of E ty l \<noteq> None \<and> spec_variant b (ls_class E l) \<noteq> None"
    then show "fst (srslte_ldpc_encoder_init E q0 ty b l) = 0"
      "encode (fst (snd (srslte_ldpc_encoder_init E q0 ty b l))) = tier_of E ty l"
      "resolved_variant (fst (snd (srslte_ldpc_encoder_init E q0 ty b l)))
        = spec_variant b (ls_class E l)"
      using 3 by blast+
  qed
qed

lemma nr_resources_ok: "resources_ok nr_env"
  by (simp add: resources_ok_def nr_env_def)

theorem init_resolves_variant_witness:
  "resources_ok nr_env \<and>
   resolved_variant (fst (snd (srslte_ldpc_encoder_init nr_env bzero_encoder
      SRSLTE_LDPC_ENCODER_C BG1 2))) = Some 1 \<and>
   resolved_variant (fst (snd (srslte_ldpc_encoder_init nr_env bzero_encoder
      SRSLTE_LDPC_ENCODER_C BG1 13))) = Some 2 \<and>
   resolved_variant (fst (snd (srslte_ldpc_encoder_init nr_env bzero_encoder
      SRSLTE_LDPC_ENCODER_C BG2 2))) = Some 3 \<and>
   resolved_variant (fst (snd (srslte_ldpc_encoder_init nr_env bzero_encoder
      SRSLTE_LDPC_ENCODER_C BG2 7))) = Some 4 \<and>
   resolved_variant (fst (snd (srslte_ldpc_encoder_init nr_env bzero_encoder
      SRSLTE_LDPC_ENCODER_AVX2 BG1 8))) = Some 1 \<and>
   encode (fst (snd (srslte_ldpc_encoder_init nr_env bzero_encoder
      SRSLTE_LDPC_ENCODER_AVX2 BG1 8))) = Some P_encode_avx2 \<and>
   resolved_variant (fst (snd (srslte_ldpc_encoder_init nr_env bzero_encoder
      SRSLTE_LDPC_ENCODER_AVX2 BG2 240))) = Some 4 \<and>
   encode (fst (snd (srslte_ldpc_encoder_init nr_env bzero_encoder
      SRSLTE_LDPC_ENCODER_AVX2 BG2 240))) = Some P_encode_avx2long \<and>
   srslte_ldpc_encoder_init nr_env bzero_encoder SRSLTE_LDPC_ENCODER_C BG2 2 = (0, bg2_q, []) \<and>
   resolved_variant bg2_q = Some 3 \<and>
   spec_variant BG2 (ls_class nr_env 1) = None \<and>
   fst (srslte_ldpc_encoder_init nr_env bzero_encoder SRSLTE_LDPC_ENCODER_C BG2 1) = -1 \<and>
   spec_variant 2 (ls_class nr_env 8) = None \<and>
   fst (srslte_ldpc_encoder_init nr_env bzero_encoder SRSLTE_LDPC_ENCODER_C 2 8) = -1"
proof -
  have v: "spec_variant BG1 (ls_class nr_env 2) = Some 1"
    "spec_variant BG1 (ls_class nr_env 13) = Some 2"
    "spec_variant BG2 (ls_class nr_env 2) = Some 3"
    "spec_variant BG2 (ls_class nr_env 7) = Some 4"
    "spec_variant BG1 (ls_class nr_env 8) = Some 1"
    "spec_variant BG2 (ls_class nr_env 240) = Some 4"
    "spec_variant BG2 (ls_class nr_env 1) = None"
    "spec_variant 2 (ls_class nr_env 8) = None"
    by (simp_all add: spec_variant_def ls_class_def nr_env_def nr_ls_index_def BG1_def BG2_def)
  have t: "tier_of nr_env SRSLTE_LDPC_ENCODER_C 2 = Some P_encode_c"
    "tier_of nr_env SRSLTE_LDPC_ENCODER_C 13 = Some P_encode_c"
    "tier_of nr_env SRSLTE_LDPC_ENCODER_C 7 = Some P_encode_c"
    "tier_of nr_env SRSLTE_LDPC_ENCODER_AVX2 8 = Some P_encode_avx2"
    "tier_of nr_env SRSLTE_LDPC_ENCODER_AVX2 240 = Some P_encode_avx2long"
    by (simp_all add: tier_of_def nr_env_def)
  note r = nr_resources_ok
  note i1 = init_resolves_variant [of nr_env bzero_encoder SRSLTE_LDPC_ENCODER_C BG1 2]
  note i2 = init_resolves_variant [of nr_env bzero_encoder SRSLTE_LDPC_ENCODER_C BG1 13]
  note i3 = init_resolves_variant
    [of nr_env bzero_encoder SRSLTE_LDPC_ENCODER_C BG2 2 bg2_q "[]"]
  note i4 = init_resolves_variant [of nr_env bzero_encoder SRSLTE_LDPC_ENCODER_C BG2 7]
  note i5 = init_resolves_variant [of nr_env bzero_encoder SRSLTE_LDPC_ENCODER_AVX2 BG1 8]
  note i6 = init_resolves_variant [of nr_env bzero_encoder SRSLTE_LDPC_ENCODER_AVX2 BG2 240]
  note i7 = init_resolves_variant [of nr_env bzero_encoder SRSLTE_LDPC_ENCODER_C BG2 1]
  note i8 = init_resolves_variant [of nr_env bzero_encoder SRSLTE_LDPC_ENCODER_C 2 8]
  show ?thesis
    using i1 i2 i3 i4 i5 i6 i7 i8 by (simp add: r v t bg2_init)
qed

subsection \<open>The codeword that a call writes\<close>

lemma systematic_loop_frame:
  assumes "0 \<le> k" and "0 \<le> skip_in" and "bound \<le> int (length outp)"
    and "skip_in + bound \<le> int (length inp)"
  shows "\<exists>out1. systematic_loop inp outp skip_in bound k = Some out1 \<and>
           length out1 = length outp \<and>
           (\<forall>j. k \<le> j \<and> j < bound \<longrightarrow> out1 ! nat j = inp ! nat (skip_in + j)) \<and>
           (\<forall>i. i < nat k \<or> bound \<le> int i \<longrightarrow> out1 ! i = outp ! i)"
  using assms
proof (induction inp outp skip_in bound k rule: systematic_loop.induct)
  case (1 inp outp skip_in bound k)
  show ?case
  proof (cases "k < bound")
    case False
    then have s: "systematic_loop inp outp skip_in bound k = Some outp"
      by (subst systematic_loop.simps) simp
    have "outp ! nat j = inp ! nat (skip_in + j)" if "k \<le> j \<and> j < bound" for j
      using that False by linarith
    then show ?thesis unfolding s by blast
  next
    case True
    let ?o = "outp[nat k := inp ! nat (skip_in + k)]"
    have g: "0 \<le> k \<and> nat k < length outp \<and> 0 \<le> skip_in + k \<and>
        nat (skip_in + k) < length inp"
      using True "1.prems" by linarith
    have "\<exists>out1. systematic_loop inp ?o skip_in bound (k + 1) = Some out1 \<and>
           length out1 = length ?o \<and>
           (\<forall>j. k + 1 \<le> j \<and> j < bound \<longrightarrow> out1 ! nat j = inp ! nat (skip_in + j)) \<and>
           (\<forall>i. i < nat (k + 1) \<or> bound \<le> int i \<longrightarrow> out1 ! i = ?o ! i)"
      using True g "1.prems" by (intro "1.IH") simp_all
    then obtain out1 where o: "systematic_loop inp ?o skip_in bound (k + 1) = Some out1"
      "length out1 = length ?o"
      "\<forall>j. k + 1 \<le> j \<and> j < bound \<longrightarrow> out1 ! nat j = inp ! nat (skip_in + j)"
      "\<forall>i. i < nat (k + 1) \<or> bound \<le> int i \<longrightarrow> out1 ! i = ?o ! i"
      by blast
    have s: "systematic_loop inp outp skip_in bound k = Some out1"
      using True g o(1) by (subst systematic_loop.simps) simp
    have a: "out1 ! nat j = inp ! nat (skip_in + j)" if "k \<le> j" "j < bound" for j
    proof (cases "j = k")
      case True
      have "nat k < nat (k + 1)" using g by linarith
      then have "out1 ! nat k = ?o ! nat k" using o(4) by blast
      then show ?thesis using True g by simp
    next
      case False
      then show ?thesis using that o(3) by simp
    qed
    have b: "out1 ! i = outp ! i" if "i < nat k \<or> bound \<le> int i" for i
    proof -
      have ne: "i \<noteq> nat k" using that True g by linarith
      have "i < nat (k + 1) \<or> bound \<le> int i" using that by linarith
      then have "out1 ! i = ?o ! i" using o(4) by blast
      then show ?thesis using ne by simp
    qed
    show ?thesis using s o(2) a b by simp
  qed
qed

lemma systematic_loop_prefix:
  assumes "B \<le> length outp" and "skip + B \<le> length inp"
  shows "systematic_loop inp outp (int skip) (int B) 0
           = Some (take B (drop skip inp) @ drop B outp)"
proof -
  have z: "(0::int) \<le> 0" "0 \<le> int skip" by simp_all
  have b1: "int B \<le> int (length outp)" using assms(1) by simp
  have b2: "int skip + int B \<le> int (length inp)"
    using assms(2) by (simp only: of_nat_add [symmetric] of_nat_le_iff)
  obtain out1 where o: "systematic_loop inp outp (int skip) (int B) 0 = Some out1"
    "length out1 = length outp"
    "\<forall>j. 0 \<le> j \<and> j < int B \<longrightarrow> out1 ! nat j = inp ! nat (int skip + j)"
    "\<forall>i. i < nat 0 \<or> int B \<le> int i \<longrightarrow> out1 ! i = outp ! i"
    using systematic_loop_frame [OF z b1 b2] by blast
  have "out1 = take B (drop skip inp) @ drop B outp"
  proof (rule nth_equalityI)
    show "length out1 = length (take B (drop skip inp) @ drop B outp)"
      using assms o(2) by simp
  next
    fix i assume i: "i < length out1"
    show "out1 ! i = (take B (drop skip inp) @ drop B outp) ! i"
    proof (cases "i < B")
      case True
      then have "int i < int B" by (simp only: of_nat_less_iff)
      moreover have "0 \<le> int i" by simp
      ultimately have "out1 ! nat (int i) = inp ! nat (int skip + int i)" using o(3) by blast
      moreover have "nat (int skip + int i) = skip + i"
        by (simp only: of_nat_add [symmetric] nat_int)
      ultimately have "out1 ! i = inp ! (skip + i)" by (simp only: nat_int)
      then show ?thesis using True assms by (simp add: nth_append)
    next
      case False
      then have "int B \<le> int i" by simp
      then have "out1 ! i = outp ! i" using o(4) by blast
      then show ?thesis using False assms i o(2) by (simp add: nth_append)
    qed
  qed
  with o(1) show ?thesis by simp
qed

lemma write_layer_prefix:
  assumes K: "2 \<le> unat (bgK q)" and c: "length cw = (unat (bgK q) + m - 2) * unat (ls q)"
    and r: "unat (ls q) \<le> length rest"
  shows "write_layer bits q (cw @ rest) m
           = Some ((cw @ map bits [0..<unat (ls q)]) @ drop (unat (ls q)) rest)"
proof -
  have "uint (bgK q) + int m - 2 = int (unat (bgK q) + m - 2)" using K by simp
  then have pos: "(uint (bgK q) + int m - 2) * uint (ls q) = int (length cw)"
    by (simp add: c)
  show ?thesis
    using r by (simp add: write_layer_def pos Let_def)
qed


lemma call_encode_high_rate_prefix:
  assumes K: "2 \<le> unat (bgK q)" and c: "length cw = (unat (bgK q) - 2) * unat (ls q)"
    and r: "4 * unat (ls q) \<le> length rest"
  shows "call_encode_high_rate E f q (cw @ rest)
           = Some ((cw @ map (core_parity E f q 0) [0..<unat (ls q)]
                       @ map (core_parity E f q 1) [0..<unat (ls q)]
                       @ map (core_parity E f q 2) [0..<unat (ls q)]
                       @ map (core_parity E f q 3) [0..<unat (ls q)])
                   @ drop (4 * unat (ls q)) rest)"
proof -
  define L where "L = unat (ls q)"
  define Kn where "Kn = unat (bgK q)"
  define b where "b = (\<lambda>m. map (core_parity E f q m) [0..<L])"
  have lb: "length (b m) = L" for m by (simp add: b_def)
  have K2: "2 \<le> Kn" using K by (simp add: Kn_def)
  have pos: "(Kn + m - 2) * L = (Kn - 2) * L + m * L" for m
  proof -
    have "Kn + m - 2 = (Kn - 2) + m" using K2 by simp
    then show ?thesis by (simp only: add_mult_distrib)
  qed
  have c': "length cw = (Kn - 2) * L" using c by (simp add: Kn_def L_def)
  have c0: "length cw = (Kn + 0 - 2) * L" unfolding pos using c' by simp
  have c1: "length (cw @ b 0) = (Kn + 1 - 2) * L" unfolding pos using c' lb by simp
  have c2: "length ((cw @ b 0) @ b 1) = (Kn + 2 - 2) * L" unfolding pos using c' lb by simp
  have c3: "length (((cw @ b 0) @ b 1) @ b 2) = (Kn + 3 - 2) * L"
    unfolding pos using c' lb by simp
  have r0: "L \<le> length rest" using r by (simp add: L_def)
  have r1: "L \<le> length (drop L rest)" using r by (simp add: L_def)
  have r2: "L \<le> length (drop L (drop L rest))" using r by (simp add: L_def)
  have r3: "L \<le> length (drop L (drop L (drop L rest)))" using r by (simp add: L_def)
  have w0: "write_layer (core_parity E f q 0) q (cw @ rest) 0 = Some ((cw @ b 0) @ drop L rest)"
    unfolding b_def L_def
    by (rule write_layer_prefix [OF K]) (use c0 r0 in \<open>simp_all add: L_def Kn_def\<close>)
  have w1: "write_layer (core_parity E f q 1) q ((cw @ b 0) @ drop L rest) 1
      = Some (((cw @ b 0) @ b 1) @ drop L (drop L rest))"
    unfolding b_def L_def
    by (rule write_layer_prefix [OF K]) (use c1 r1 in \<open>simp_all add: L_def Kn_def b_def\<close>)
  have w2: "write_layer (core_parity E f q 2) q (((cw @ b 0) @ b 1) @ drop L (drop L rest)) 2
      = Some ((((cw @ b 0) @ b 1) @ b 2) @ drop L (drop L (drop L rest)))"
    unfolding b_def L_def
    by (rule write_layer_prefix [OF K]) (use c2 r2 in \<open>simp_all add: L_def Kn_def b_def\<close>)
  have w3: "write_layer (core_parity E f q 3) q
        ((((cw @ b 0) @ b 1) @ b 2) @ drop L (drop L (drop L rest))) 3
      = Some (((((cw @ b 0) @ b 1) @ b 2) @ b 3) @ drop L (drop L (drop L (drop L rest))))"
    unfolding b_def L_def
    by (rule write_layer_prefix [OF K]) (use c3 r3 in \<open>simp_all add: L_def Kn_def b_def\<close>)
  have "call_encode_high_rate E f q (cw @ rest)
      = Some (((((cw @ b 0) @ b 1) @ b 2) @ b 3) @ drop L (drop L (drop L (drop L rest))))"
    by (simp only: call_encode_high_rate_def w0 w1 w2 w3 Option.bind.bind_lunit)
  moreover have "L + (L + (L + L)) = 4 * L" by simp
  then have "drop L (drop L (drop L (drop L rest))) = drop (4 * L) rest"
    by (simp only: drop_drop)
  ultimately show ?thesis by (simp add: b_def L_def)
qed


lemma ext_loop_prefix:
  assumes K: "2 \<le> unat (bgK q)"
  shows "m \<le> n \<Longrightarrow> length cw = (unat (bgK q) + m - 2) * unat (ls q) \<Longrightarrow>
     \<exists>cw'. length cw' = (unat (bgK q) + n - 2) * unat (ls q) \<and> take (length cw) cw' = cw \<and>
       (\<forall>rest. (n - m) * unat (ls q) \<le> length rest \<longrightarrow>
          ext_loop E q (cw @ rest) n m = Some (cw' @ drop ((n - m) * unat (ls q)) rest))"
proof (induction "n - m" arbitrary: m cw)
  case 0
  then have e: "m = n" by simp
  have "ext_loop E q (cw @ rest) n n = Some (cw @ rest)" for rest
    by (subst ext_loop.simps) simp
  then show ?case using 0 e by auto
next
  case (Suc d)
  define L where "L = unat (ls q)"
  define Kn where "Kn = unat (bgK q)"
  define blk where "blk = map (ext_parity E q cw m) [0..<L]"
  have mn: "m < n" using Suc.hyps(2) by simp
  have lc: "length cw = (Kn + m - 2) * L" using Suc.prems(2) by (simp add: Kn_def L_def)
  have "Kn + (m + 1) - 2 = (Kn + m - 2) + 1" using K by (simp add: Kn_def)
  then have "(Kn + (m + 1) - 2) * L = (Kn + m - 2) * L + L"
    by (simp only: add_mult_distrib mult_1)
  then have l1: "length (cw @ blk) = (unat (bgK q) + (m + 1) - 2) * unat (ls q)"
    using lc by (simp add: blk_def Kn_def L_def)
  have d: "d = n - (m + 1)" using Suc.hyps(2) by simp
  have m1: "m + 1 \<le> n" using mn by simp
  obtain cw' where cw': "length cw' = (unat (bgK q) + n - 2) * unat (ls q)"
    "take (length (cw @ blk)) cw' = cw @ blk"
    "\<forall>rest. (n - (m + 1)) * unat (ls q) \<le> length rest \<longrightarrow>
       ext_loop E q ((cw @ blk) @ rest) n (m + 1)
         = Some (cw' @ drop ((n - (m + 1)) * unat (ls q)) rest)"
    using Suc.hyps(1) [OF d m1 l1] by blast
  have "take (length cw) (take (length (cw @ blk)) cw') = take (length cw) (cw @ blk)"
    by (simp only: cw'(2))
  then have t: "take (length cw) cw' = cw" by (simp add: min_def)
  have sp: "(n - m) * L = (n - (m + 1)) * L + L"
  proof -
    have "n - m = (n - (m + 1)) + 1" using mn by simp
    then show ?thesis by (simp only: add_mult_distrib mult_1)
  qed
  have r: "ext_loop E q (cw @ rest) n m = Some (cw' @ drop ((n - m) * L) rest)"
    if le: "(n - m) * L \<le> length rest" for rest
  proof -
    have Lr: "L \<le> length rest" using le sp by linarith
    have "uint (bgK q) + int m - 2 = int (Kn + m - 2)" using K by (simp add: Kn_def)
    then have "(uint (bgK q) + int m - 2) * uint (ls q) = int (length cw)"
      by (simp add: lc L_def)
    then have pf: "take (nat ((uint (bgK q) + int m - 2) * uint (ls q))) (cw @ rest) = cw"
      by simp
    have w: "write_layer (ext_parity E q cw m) q (cw @ rest) m
        = Some ((cw @ blk) @ drop L rest)"
      unfolding blk_def L_def
      by (rule write_layer_prefix [OF K]) (use Suc.prems(2) Lr in \<open>simp_all add: L_def\<close>)
    have "(n - (m + 1)) * unat (ls q) \<le> length (drop L rest)"
      using le sp by (simp add: L_def)
    then have x: "ext_loop E q ((cw @ blk) @ drop L rest) n (m + 1)
        = Some (cw' @ drop ((n - (m + 1)) * unat (ls q)) (drop L rest))"
      using cw'(3) by blast
    have "drop ((n - (m + 1)) * unat (ls q)) (drop L rest) = drop ((n - m) * L) rest"
      by (simp only: drop_drop sp L_def [symmetric])
    with x have x': "ext_loop E q ((cw @ blk) @ drop L rest) n (m + 1)
        = Some (cw' @ drop ((n - m) * L) rest)" by simp
    show ?thesis
      by (subst ext_loop.simps) (simp only: mn if_True pf w Option.bind.bind_lunit x')
  qed
  show ?case using cw'(1) t r by (auto simp: L_def)
qed


lemma dimension_check_unat:
  "(il :: 32 word) div ucast (bgK q) = ucast (ls q) \<longleftrightarrow>
     unat il div unat (bgK q) = unat (ls q)"
proof -
  have "unat (il div ucast (bgK q)) = unat il div unat (bgK q)"
    by (simp add: unat_div unat_ucast_8_32)
  moreover have "unat (ucast (ls q) :: 32 word) = unat (ls q)" by (rule unat_ucast_16_32)
  ultimately show ?thesis by (metis word_unat_eq_iff)
qed

lemma n_layers_of_ptr [simp]: "n_layers_of (q\<lparr>ptr := x\<rparr>) c = n_layers_of q c"
  by (simp add: n_layers_of_def)

text \<open>What the proofs below use of the effective length and of the layer count.\<close>

lemma effective_length_facts:
  assumes d: "dims_ok q" and c: "rm_length q c = Some c'"
  shows "(unat (bgK q) + 2) * unat (ls q) \<le> unat c'"
    and "unat c' \<le> unat (liftN q) - 2 * unat (ls q)"
    and "4 \<le> unat (n_layers_of q c')"
    and "unat (n_layers_of q c') \<le> unat (bgM q)"
    and "(unat (bgK q) + unat (n_layers_of q c') - 2) * unat (ls q) = unat c'"
proof -
  obtain c'' where c'': "rm_length q c = Some c''"
    "unat c'' = spec_normalize (unat (bgK q)) (unat (ls q)) (unat (liftN q)) (unat c)"
    using rm_length_unat [OF d] by blast
  with c have u: "unat c' = spec_normalize (unat (bgK q)) (unat (ls q)) (unat (liftN q)) (unat c)"
    by simp
  from d have h: "0 < unat (ls q)"
    "unat (liftN q) = unat (ls q) * (unat (bgK q) + unat (bgM q))" "4 \<le> unat (bgM q)"
    by (simp_all add: dims_ok_def)
  note b = spec_normalize_bounds [OF h, of "unat c", folded u]
  note n = n_layers_unat [OF d b]
  show "(unat (bgK q) + 2) * unat (ls q) \<le> unat c'" by (rule b(2))
  show "unat c' \<le> unat (liftN q) - 2 * unat (ls q)" by (rule b(3))
  show "4 \<le> unat (n_layers_of q c')" by (rule n(2))
  show "unat (n_layers_of q c') \<le> unat (bgM q)" by (rule n(3))
  have "unat c' div unat (ls q) * unat (ls q) = unat c'"
    using b(1) by (simp add: mod_eq_0_iff_dvd)
  moreover have "unat (bgK q) + unat (n_layers_of q c') - 2 = unat c' div unat (ls q)"
    using n(1) by linarith
  ultimately show "(unat (bgK q) + unat (n_layers_of q c') - 2) * unat (ls q) = unat c'"
    by simp
qed

lemma encode_c_codeword:
  assumes d: "dims_ok q" and p: "ptr q \<noteq> None" and h: "encode_high_rate q \<noteq> None"
    and chk: "unat il div unat (bgK q) = unat (ls q)"
    and inp: "unat (bgK q) * unat (ls q) \<le> length inp"
    and c: "rm_length q c = Some c'"
  shows "\<exists>cw q'. length cw = unat c' \<and>
           take ((unat (bgK q) - 2) * unat (ls q)) cw
             = take ((unat (bgK q) - 2) * unat (ls q)) (drop (2 * unat (ls q)) inp) \<and>
           (\<forall>outp. unat c' \<le> length outp \<longrightarrow>
              encode_c E q inp outp il c = Some (0, q', cw @ drop (unat c') outp))"
proof -
  define L where "L = unat (ls q)"
  define K where "K = unat (bgK q)"
  define n where "n = unat (n_layers_of q c')"
  define B where "B = (K - 2) * L"
  define sys where "sys = take B (drop (2 * L) inp)"
  from d have K: "2 \<le> K" by (simp add: dims_ok_def K_def)
  have K0: "bgK q \<noteq> 0" using K by (auto simp: K_def)
  have ck: "il div ucast (bgK q) = ucast (ls q)" by (simp add: dimension_check_unat chk)
  note e = effective_length_facts [OF d c, folded K_def L_def n_def]
  have KL: "2 * L + B = K * L"
  proof -
    have "2 + (K - 2) = K" using K by simp
    then have "(2 + (K - 2)) * L = K * L" by (rule arg_cong)
    then show ?thesis by (simp only: add_mult_distrib B_def)
  qed
  have inp': "2 * L + B \<le> length inp" using inp KL by (simp add: K_def L_def)
  have lsys: "length sys = B" using inp' by (simp add: sys_def)
  have B4: "B + 4 * L = (K + 2) * L"
  proof -
    have "(K - 2) + 4 = K + 2" using K by simp
    then have "((K - 2) + 4) * L = (K + 2) * L" by (rule arg_cong)
    then show ?thesis by (simp only: add_mult_distrib B_def)
  qed
  have n4: "(K + 2) * L + (n - 4) * L = unat c'"
  proof -
    have "(K + 2) + (n - 4) = K + n - 2" using e(3) by simp
    then have "((K + 2) + (n - 4)) * L = (K + n - 2) * L" by (rule arg_cong)
    then show ?thesis using e(5) by (simp only: add_mult_distrib)
  qed
  \<comment> \<open>the state that the kernels see\<close>
  define q1 where "q1 = q\<lparr>ptr := Some (systematic_aux E q inp)\<rparr>"
  have pre: "preprocess_systematic_bits E q inp = Some q1"
    using p by (simp add: preprocess_systematic_bits_def q1_def)
  obtain f where f: "encode_high_rate q1 = Some f" using h by (auto simp: q1_def)
  have q1K: "unat (bgK q1) = K" "unat (ls q1) = L" by (simp_all add: q1_def K_def L_def)
  have K1: "2 \<le> unat (bgK q1)" using K by (simp add: q1K)
  define cw4 where "cw4 = sys @ map (core_parity E f q1 0) [0..<L]
                       @ map (core_parity E f q1 1) [0..<L]
                       @ map (core_parity E f q1 2) [0..<L]
                       @ map (core_parity E f q1 3) [0..<L]"
  have l4: "length cw4 = (K + 2) * L" using lsys B4 by (simp add: cw4_def)
  have l4': "length cw4 = (unat (bgK q1) + 4 - 2) * unat (ls q1)"
    using l4 by (simp add: q1K)
  have n4': "4 \<le> n" using e(3) .
  obtain cwf where cwf: "length cwf = (K + n - 2) * L" "take (length cw4) cwf = cw4"
    "\<forall>rest. (n - 4) * L \<le> length rest \<longrightarrow>
       ext_loop E q1 (cw4 @ rest) n 4 = Some (cwf @ drop ((n - 4) * L) rest)"
    using ext_loop_prefix [OF K1 n4' l4', of E] unfolding q1K by blast
  have lf: "length cwf = unat c'" using cwf(1) e(5) by simp
  have "take B (take (length cw4) cwf) = take B cw4" by (simp only: cwf(2))
  moreover have "B \<le> length cw4" using l4 B4 by linarith
  ultimately have "take B cwf = take B cw4" by (simp add: min_def)
  then have tf: "take B cwf = sys" using lsys by (simp add: cw4_def)
  have run: "encode_c E q inp outp il c = Some (0, q1, cwf @ drop (unat c') outp)"
    if le: "unat c' \<le> length outp" for outp
  proof -
    have Bo: "B \<le> length outp" using le e(1) B4 by linarith
    have sk: "2 * uint (ls q) = int (2 * L)" by (simp add: L_def)
    have "uint (bgK q) - 2 = int (K - 2)" using K by (simp add: K_def)
    then have bd: "(uint (bgK q) - 2) * uint (ls q) = int B" by (simp add: L_def B_def)
    have s1: "systematic_loop inp outp (2 * uint (ls q)) ((uint (bgK q) - 2) * uint (ls q)) 0
        = Some (sys @ drop B outp)"
      unfolding sk bd sys_def by (rule systematic_loop_prefix [OF Bo inp'])
    have r4: "4 * unat (ls q1) \<le> length (drop B outp)" using le e(1) B4 by (simp add: q1K)
    have lsys': "length sys = (unat (bgK q1) - 2) * unat (ls q1)"
      using lsys by (simp add: q1K B_def)
    have s2: "call_encode_high_rate E f q1 (sys @ drop B outp)
        = Some (cw4 @ drop (4 * L) (drop B outp))"
      using call_encode_high_rate_prefix [OF K1 lsys' r4, of E f]
      by (simp add: cw4_def q1K)
    have d4: "drop (4 * L) (drop B outp) = drop ((K + 2) * L) outp"
      by (simp only: drop_drop) (simp only: B4 add.commute)
    have "(n - 4) * L \<le> length (drop ((K + 2) * L) outp)" using le n4 by simp
    then have s3: "ext_loop E q1 (cw4 @ drop ((K + 2) * L) outp) n 4
        = Some (cwf @ drop ((n - 4) * L) (drop ((K + 2) * L) outp))"
      using cwf(3) by blast
    have d5: "drop ((n - 4) * L) (drop ((K + 2) * L) outp) = drop (unat c') outp"
      by (simp only: drop_drop) (simp only: n4 add.commute)
    have ext: "encode_ext_region E q1 cw4' (n_layers_of q1 c') = ext_loop E q1 cw4' n 4" for cw4'
      by (simp add: encode_ext_region_def q1_def n_def)
    have s3': "encode_ext_region E q1 (cw4 @ drop (4 * L) (drop B outp)) (n_layers_of q1 c')
        = Some (cwf @ drop (unat c') outp)"
      by (simp only: ext d4 s3 d5)
    show ?thesis
      using K0 ck c pre f s1 s2 s3'
      by (simp add: encode_c_def del: systematic_loop.simps ext_loop.simps)
  qed
  show ?thesis
    using lf tf run by (auto simp: sys_def B_def K_def L_def)
qed

lemma write_node_state:
  assumes q: "q = q0\<lparr>ptr := Some buf\<rparr>" and l: "length buf = T"
    and i: "(i + 1) * unat (ls q0) \<le> T" and P: "P \<le> i * unat (ls q0)"
  shows "\<exists>buf'. write_node bits q i = Some (q0\<lparr>ptr := Some buf'\<rparr>) \<and> length buf' = T \<and>
           take P buf' = take P buf"
proof -
  define L where "L = unat (ls q0)"
  have le: "i * L + L \<le> length buf" using i l by (simp add: L_def)
  let ?b = "take (i * L) buf @ map bits [0..<L] @ drop (i * L + L) buf"
  have w: "write_node bits q i = Some (q0\<lparr>ptr := Some ?b\<rparr>)"
    using le by (simp add: write_node_def q L_def Let_def)
  have len: "length ?b = T" using le l by simp
  have "take P ?b = take P (take (i * L) buf)"
    using P le by (simp add: L_def)
  then have fr: "take P ?b = take P buf" using P by (simp add: min_def L_def)
  show ?thesis using w len fr by blast
qed

lemma call_encode_high_rate_avx2_state:
  assumes q: "q = q0\<lparr>ptr := Some buf\<rparr>" and l: "length buf = T"
    and i: "(unat (bgK q0) + 4) * unat (ls q0) \<le> T"
  shows "\<exists>buf'. call_encode_high_rate_avx2 E f q = Some (q0\<lparr>ptr := Some buf'\<rparr>) \<and>
           length buf' = T \<and>
           take (unat (bgK q0) * unat (ls q0)) buf' = take (unat (bgK q0) * unat (ls q0)) buf"
proof -
  define L where "L = unat (ls q0)"
  define K where "K = unat (bgK q0)"
  have kq: "unat (bgK q) = K" by (simp add: q K_def)
  have b: "(K + j + 1) * L \<le> T" if "j \<le> 3" for j
  proof -
    have "(K + j + 1) * L \<le> (K + 4) * L" using that by (intro mult_le_mono1) simp
    with i show ?thesis by (simp add: K_def L_def)
  qed
  have P: "K * L \<le> (K + j) * L" for j by (intro mult_le_mono1) simp
  obtain b0 where b0: "write_node (core_parity_avx2 E f q 0) q (K + 0) = Some (q0\<lparr>ptr := Some b0\<rparr>)"
    "length b0 = T" "take (K * L) b0 = take (K * L) buf"
    using write_node_state [OF q l, of "K + 0" "K * L"] b [of 0] P [of 0]
    unfolding L_def [symmetric] by auto
  obtain b1 where b1: "write_node (core_parity_avx2 E f q 1) (q0\<lparr>ptr := Some b0\<rparr>) (K + 1)
      = Some (q0\<lparr>ptr := Some b1\<rparr>)"
    "length b1 = T" "take (K * L) b1 = take (K * L) b0"
    using write_node_state [OF refl b0(2), of "K + 1" q0 "K * L"] b [of 1] P [of 1]
    unfolding L_def [symmetric] by auto
  obtain b2 where b2: "write_node (core_parity_avx2 E f q 2) (q0\<lparr>ptr := Some b1\<rparr>) (K + 2)
      = Some (q0\<lparr>ptr := Some b2\<rparr>)"
    "length b2 = T" "take (K * L) b2 = take (K * L) b1"
    using write_node_state [OF refl b1(2), of "K + 2" q0 "K * L"] b [of 2] P [of 2]
    unfolding L_def [symmetric] by auto
  obtain b3 where b3: "write_node (core_parity_avx2 E f q 3) (q0\<lparr>ptr := Some b2\<rparr>) (K + 3)
      = Some (q0\<lparr>ptr := Some b3\<rparr>)"
    "length b3 = T" "take (K * L) b3 = take (K * L) b2"
    using write_node_state [OF refl b2(2), of "K + 3" q0 "K * L"] b [of 3] P [of 3]
    unfolding L_def [symmetric] by auto
  have b0': "write_node (core_parity_avx2 E f q 0) q K = Some (q0\<lparr>ptr := Some b0\<rparr>)"
    using b0(1) by simp
  have r: "call_encode_high_rate_avx2 E f q = Some (q0\<lparr>ptr := Some b3\<rparr>)"
    by (simp only: call_encode_high_rate_avx2_def kq b0' b1(1) b2(1) b3(1)
        Option.bind.bind_lunit)
  have e: "take (K * L) b3 = take (K * L) buf" using b0(3) b1(3) b2(3) b3(3) by simp
  show ?thesis using r b3(2) e unfolding K_def L_def by blast
qed

lemma ext_loop_avx2_state:
  assumes "q = q0\<lparr>ptr := Some buf\<rparr>" and "length buf = T"
    and "(unat (bgK q0) + n) * unat (ls q0) \<le> T"
  shows "\<exists>buf'. ext_loop_avx2 par q n m = Some (q0\<lparr>ptr := Some buf'\<rparr>) \<and>
           length buf' = T \<and>
           take (unat (bgK q0) * unat (ls q0)) buf' = take (unat (bgK q0) * unat (ls q0)) buf"
  using assms
proof (induction par q n m arbitrary: buf rule: ext_loop_avx2.induct)
  case (1 par q n m)
  define L where "L = unat (ls q0)"
  define K where "K = unat (bgK q0)"
  show ?case
  proof (cases "m < n")
    case False
    then have "ext_loop_avx2 par q n m = Some (q0\<lparr>ptr := Some buf\<rparr>)"
      using "1.prems"(1) by (subst ext_loop_avx2.simps) simp
    then show ?thesis using "1.prems"(2) by blast
  next
    case True
    have kq: "unat (bgK q) = K" using "1.prems"(1) by (simp add: K_def)
    have "(K + m + 1) * L \<le> (K + n) * L" using True by (intro mult_le_mono1) simp
    then have i: "(K + m + 1) * unat (ls q0) \<le> T" using "1.prems"(3) by (simp add: K_def L_def)
    have P: "K * L \<le> (K + m) * unat (ls q0)" unfolding L_def by (intro mult_le_mono1) simp
    obtain b1 where b1: "write_node (par q m) q (K + m) = Some (q0\<lparr>ptr := Some b1\<rparr>)"
      "length b1 = T" "take (K * L) b1 = take (K * L) buf"
      using write_node_state [OF "1.prems"(1,2) i P] by blast
    have w: "write_node (par q m) q (unat (bgK q) + m) = Some (q0\<lparr>ptr := Some b1\<rparr>)"
      using b1(1) by (simp only: kq)
    have "\<exists>buf'. ext_loop_avx2 par (q0\<lparr>ptr := Some b1\<rparr>) n (m + 1) = Some (q0\<lparr>ptr := Some buf'\<rparr>) \<and>
           length buf' = T \<and>
           take (unat (bgK q0) * unat (ls q0)) buf' = take (unat (bgK q0) * unat (ls q0)) b1"
      using True w b1(2) "1.prems"(3) by (intro "1.IH") simp_all
    then obtain b2 where b2: "ext_loop_avx2 par (q0\<lparr>ptr := Some b1\<rparr>) n (m + 1)
        = Some (q0\<lparr>ptr := Some b2\<rparr>)" "length b2 = T" "take (K * L) b2 = take (K * L) b1"
      unfolding K_def L_def by blast
    have r: "ext_loop_avx2 par q n m = Some (q0\<lparr>ptr := Some b2\<rparr>)"
      by (subst ext_loop_avx2.simps) (simp only: True if_True w Option.bind.bind_lunit b2(1))
    have e: "take (K * L) b2 = take (K * L) buf" using b1(3) b2(3) by simp
    show ?thesis using r b2(2) e unfolding K_def L_def by blast
  qed
qed


lemma vector_pipeline:
  assumes d: "dims_ok q" and p: "ptr q \<noteq> None" and h: "encode_high_rate_avx2 q \<noteq> None"
    and inp: "unat (bgK q) * unat (ls q) \<le> length inp"
    and c: "rm_length q c = Some c'"
  shows "\<exists>cw q'. length cw = unat c' \<and>
           take ((unat (bgK q) - 2) * unat (ls q)) cw
             = take ((unat (bgK q) - 2) * unat (ls q)) (drop (2 * unat (ls q)) inp) \<and>
           (\<forall>outp. unat c' \<le> length outp \<longrightarrow>
              do {
                buf \<leftarrow> load_avx2 (ptr q) inp (bgK q) (bgN q) (ls q);
                q1 \<leftarrow> preprocess_systematic_bits_avx2 (q\<lparr>ptr := Some buf\<rparr>);
                f \<leftarrow> encode_high_rate_avx2 q1;
                q2 \<leftarrow> call_encode_high_rate_avx2 E f q1;
                q3 \<leftarrow> ext_loop_avx2 par q2 (unat (n_layers_of q2 c')) 4;
                out' \<leftarrow> return_codeword_avx2 (ptr q3) outp
                          (uint (n_layers_of q2 c') + uint (bgK q3)) (ls q3);
                Some (0 :: int, q3, out')
              } = Some (0, q', cw @ drop (unat c') outp))"
proof -
  define L where "L = unat (ls q)"
  define K where "K = unat (bgK q)"
  define M where "M = unat (bgM q)"
  define n where "n = unat (n_layers_of q c')"
  define B where "B = (K - 2) * L"
  define T where "T = (K + M) * L"
  from d have K: "2 \<le> K" and L: "0 < L" and M: "4 \<le> M"
    and N: "unat (bgN q) = K + M" and lN: "unat (liftN q) = L * (K + M)"
    by (simp_all add: dims_ok_def K_def L_def M_def)
  note e = effective_length_facts [OF d c, folded K_def L_def n_def M_def]
  have KL: "2 * L + B = K * L"
  proof -
    have "2 + (K - 2) = K" using K by simp
    then have "(2 + (K - 2)) * L = K * L" by (rule arg_cong)
    then show ?thesis by (simp only: add_mult_distrib B_def)
  qed
  have TT: "T = K * L + M * L" by (simp add: T_def add_mult_distrib)
  have cT: "2 * L + unat c' \<le> T"
  proof -
    have "4 * L \<le> M * L" using M by simp
    then have "2 * L \<le> T" using TT by linarith
    moreover have "unat (liftN q) = T" using lN by (simp add: T_def mult.commute)
    ultimately show ?thesis using e(2) by linarith
  qed
  \<comment> \<open>loading\<close>
  obtain buf0 where pq: "ptr q = Some buf0" using p by auto
  define buf1 where "buf1 = take (K * L) inp @ replicate (M * L) (0 :: 8 word)"
  have ld: "load_avx2 (ptr q) inp (bgK q) (bgN q) (ls q) = Some buf1"
    using inp by (simp add: load_avx2_def pq buf1_def N K_def [symmetric] L_def [symmetric])
  have l1: "length buf1 = T" using inp by (simp add: buf1_def TT K_def L_def)
  have m1: "take (K * L) buf1 = take (K * L) inp" using inp by (simp add: buf1_def K_def L_def)
  define q1 where "q1 = q\<lparr>ptr := Some buf1\<rparr>"
  have pre: "preprocess_systematic_bits_avx2 (q\<lparr>ptr := Some buf1\<rparr>) = Some q1"
    by (simp add: preprocess_systematic_bits_avx2_def q1_def)
  obtain f where f: "encode_high_rate_avx2 q1 = Some f" using h by (auto simp: q1_def)
  \<comment> \<open>the kernels\<close>
  have "(K + 4) * L \<le> (K + M) * L" using M by (intro mult_le_mono1) simp
  then have i4: "(unat (bgK q) + 4) * unat (ls q) \<le> T" by (simp add: T_def K_def L_def)
  obtain buf2 where b2: "call_encode_high_rate_avx2 E f q1 = Some (q\<lparr>ptr := Some buf2\<rparr>)"
    "length buf2 = T" "take (K * L) buf2 = take (K * L) buf1"
    using call_encode_high_rate_avx2_state [OF q1_def l1 i4, of E f]
    unfolding K_def L_def by blast
  define q2 where "q2 = q\<lparr>ptr := Some buf2\<rparr>"
  have nq2: "n_layers_of q2 c' = n_layers_of q c'" by (simp add: q2_def)
  have "(K + n) * L \<le> (K + M) * L" using e(4) by (intro mult_le_mono1) simp
  then have inn: "(unat (bgK q) + n) * unat (ls q) \<le> T" by (simp add: T_def K_def L_def)
  obtain buf3 where b3: "ext_loop_avx2 par q2 n 4 = Some (q\<lparr>ptr := Some buf3\<rparr>)"
    "length buf3 = T" "take (K * L) buf3 = take (K * L) buf2"
    using ext_loop_avx2_state [OF q2_def b2(2) inn, of par 4]
    unfolding K_def L_def by blast
  define q3 where "q3 = q\<lparr>ptr := Some buf3\<rparr>"
  define cw where "cw = take (unat c') (drop (2 * L) buf3)"
  have lcw: "length cw = unat c'" using cT b3(2) by (simp add: cw_def)
  \<comment> \<open>the systematic part\<close>
  have Bc: "B \<le> unat c'"
  proof -
    have "B \<le> (K + 2) * L" unfolding B_def by (intro mult_le_mono1) simp
    with e(1) show ?thesis by linarith
  qed
  have "take B cw = take B (drop (2 * L) buf3)" using Bc by (simp add: cw_def min_def)
  also have "\<dots> = drop (2 * L) (take (2 * L + B) buf3)" by (simp add: drop_take)
  also have "\<dots> = drop (2 * L) (take (K * L) inp)"
    using b3(3) b2(3) m1 by (simp only: KL)
  also have "\<dots> = take B (drop (2 * L) inp)"
    by (simp only: KL [symmetric]) (simp add: drop_take)
  finally have sys: "take B cw = take B (drop (2 * L) inp)" .
  \<comment> \<open>emitting\<close>
  have cd: "uint (n_layers_of q c') + uint (bgK q3) = int (n + K)"
    by (simp add: n_def K_def q3_def)
  have "int (n + K) - 2 = int (K + n - 2)" using K by simp
  then have "(int (n + K) - 2) * uint (ls q3) = int ((K + n - 2) * L)"
    by (simp add: q3_def L_def)
  then have nn: "nat ((int (n + K) - 2) * uint (ls q3)) = unat c'"
    using e(5) by simp
  have cpos: "unat c' \<noteq> 0"
  proof -
    have "0 < (K + 2) * L" using L by simp
    with e(1) show ?thesis by linarith
  qed
  have ret: "return_codeword_avx2 (ptr q3) outp
      (uint (n_layers_of q c') + uint (bgK q3)) (ls q3) = Some (cw @ drop (unat c') outp)"
    if "unat c' \<le> length outp" for outp
  proof -
    have p3: "ptr q3 = Some buf3" "unat (ls q3) = L" by (simp_all add: q3_def L_def)
    show ?thesis
      unfolding cd return_codeword_avx2_def p3(1) option.case nn Let_def
      using that cT b3(2) cpos by (simp add: p3(2) cw_def)
  qed
  have run: "do {
        buf \<leftarrow> load_avx2 (ptr q) inp (bgK q) (bgN q) (ls q);
        q1 \<leftarrow> preprocess_systematic_bits_avx2 (q\<lparr>ptr := Some buf\<rparr>);
        f \<leftarrow> encode_high_rate_avx2 q1;
        q2 \<leftarrow> call_encode_high_rate_avx2 E f q1;
        q3 \<leftarrow> ext_loop_avx2 par q2 (unat (n_layers_of q2 c')) 4;
        out' \<leftarrow> return_codeword_avx2 (ptr q3) outp
                  (uint (n_layers_of q2 c') + uint (bgK q3)) (ls q3);
        Some (0 :: int, q3, out')
      } = Some (0, q3, cw @ drop (unat c') outp)"
    if le: "unat c' \<le> length outp" for outp
    using ld pre f b2(1) b3(1) ret [OF le]
    by (simp add: q2_def [symmetric] q3_def [symmetric] nq2 n_def [symmetric]
        del: ext_loop_avx2.simps)
  show ?thesis
    using lcw sys run unfolding B_def K_def L_def by blast
qed


lemma long_routines:
  "load_avx2long = load_avx2"
  "preprocess_systematic_bits_avx2long = preprocess_systematic_bits_avx2"
  "return_codeword_avx2long = return_codeword_avx2"
  by (intro ext, simp add: load_avx2long_def load_avx2_def
      preprocess_systematic_bits_avx2long_def preprocess_systematic_bits_avx2_def
      return_codeword_avx2long_def return_codeword_avx2_def)+

lemma encode_avx2_codeword:
  assumes d: "dims_ok q" and p: "ptr q \<noteq> None" and h: "encode_high_rate_avx2 q \<noteq> None"
    and chk: "unat il div unat (bgK q) = unat (ls q)"
    and inp: "unat (bgK q) * unat (ls q) \<le> length inp"
    and c: "rm_length q c = Some c'"
  shows "\<exists>cw q'. length cw = unat c' \<and>
           take ((unat (bgK q) - 2) * unat (ls q)) cw
             = take ((unat (bgK q) - 2) * unat (ls q)) (drop (2 * unat (ls q)) inp) \<and>
           (\<forall>outp. unat c' \<le> length outp \<longrightarrow>
              encode_avx2 E q inp outp il c = Some (0, q', cw @ drop (unat c') outp))"
proof -
  from d have "2 \<le> unat (bgK q)" by (simp add: dims_ok_def)
  then have K0: "bgK q \<noteq> 0" by auto
  have ck: "il div ucast (bgK q) = ucast (ls q)" by (simp add: dimension_check_unat chk)
  show ?thesis
    using vector_pipeline [OF d p h inp c, of E "ext_parity_avx2 E"]
    by (simp add: encode_avx2_def K0 ck c encode_ext_region_avx2_def
        del: ext_loop_avx2.simps)
qed

lemma encode_avx2long_codeword:
  assumes d: "dims_ok q" and p: "ptr q \<noteq> None" and h: "encode_high_rate_avx2 q \<noteq> None"
    and chk: "unat il div unat (bgK q) = unat (ls q)"
    and inp: "unat (bgK q) * unat (ls q) \<le> length inp"
    and c: "rm_length q c = Some c'"
  shows "\<exists>cw q'. length cw = unat c' \<and>
           take ((unat (bgK q) - 2) * unat (ls q)) cw
             = take ((unat (bgK q) - 2) * unat (ls q)) (drop (2 * unat (ls q)) inp) \<and>
           (\<forall>outp. unat c' \<le> length outp \<longrightarrow>
              encode_avx2long E q inp outp il c = Some (0, q', cw @ drop (unat c') outp))"
proof -
  from d have "2 \<le> unat (bgK q)" by (simp add: dims_ok_def)
  then have K0: "bgK q \<noteq> 0" by auto
  have ck: "il div ucast (bgK q) = ucast (ls q)" by (simp add: dimension_check_unat chk)
  show ?thesis
    using vector_pipeline [OF d p h inp c, of E "ext_parity_avx2long E"]
    by (simp add: encode_avx2long_def K0 ck c encode_ext_region_avx2long_def long_routines
        del: ext_loop_avx2.simps)
qed

lemma call_encode_codeword:
  assumes d: "dims_ok q" and p: "ptr q \<noteq> None"
    and hc: "f = P_encode_c \<longrightarrow> encode_high_rate q \<noteq> None"
    and hv: "f \<noteq> P_encode_c \<longrightarrow> encode_high_rate_avx2 q \<noteq> None"
    and chk: "unat il div unat (bgK q) = unat (ls q)"
    and inp: "unat (bgK q) * unat (ls q) \<le> length inp"
    and c: "rm_length q c = Some c'"
  shows "\<exists>cw q'. length cw = unat c' \<and>
           take ((unat (bgK q) - 2) * unat (ls q)) cw
             = take ((unat (bgK q) - 2) * unat (ls q)) (drop (2 * unat (ls q)) inp) \<and>
           (\<forall>outp. unat c' \<le> length outp \<longrightarrow>
              call_encode E f q inp outp il c = Some (0, q', cw @ drop (unat c') outp))"
proof (cases f)
  case P_encode_c
  with hc have h: "encode_high_rate q \<noteq> None" by simp
  show ?thesis unfolding P_encode_c call_encode.simps
    by (rule encode_c_codeword [OF d p h chk inp c])
next
  case P_encode_avx2
  with hv have h: "encode_high_rate_avx2 q \<noteq> None" by simp
  show ?thesis unfolding P_encode_avx2 call_encode.simps
    by (rule encode_avx2_codeword [OF d p h chk inp c])
next
  case P_encode_avx2long
  with hv have h: "encode_high_rate_avx2 q \<noteq> None" by simp
  show ?thesis unfolding P_encode_avx2long call_encode.simps
    by (rule encode_avx2long_codeword [OF d p h chk inp c])
qed

lemma init_ready:
  assumes "srslte_ldpc_encoder_init E q0 ty b l = (0, q, rs)"
  shows "\<exists>f. encode q = Some f \<and> ptr q \<noteq> None \<and>
           (f = P_encode_c \<longrightarrow> encode_high_rate q \<noteq> None) \<and>
           (f \<noteq> P_encode_c \<longrightarrow> encode_high_rate_avx2 q \<noteq> None)"
proof -
  from assms obtain q9 where
    "init_c E q9 = (0, q, rs) \<or> init_avx2 E q9 = (0, q, rs) \<or> init_avx2long E q9 = (0, q, rs)"
    by (auto simp: srslte_ldpc_encoder_init_def Let_def
        split: if_splits option.splits prod.splits srslte_ldpc_encoder_type_t.splits)
  then show ?thesis
    by (auto simp: init_c_def init_avx2_def init_avx2long_def Let_def
        split: if_splits option.splits)
qed

text \<open>The codeword of a call on an initialised instance of any tier.\<close>

lemma initialised_codeword:
  assumes i: "srslte_ldpc_encoder_init E q0 ty b l = (0, q, rs)" and e: "env_ok E l"
    and il: "unat il = unat (bgK q) * unat (ls q)"
    and inp: "unat (bgK q) * unat (ls q) \<le> length inp"
    and c: "rm_length q c = Some c'"
  shows "\<exists>cw q'. length cw = unat c' \<and>
           take ((unat (bgK q) - 2) * unat (ls q)) cw
             = take ((unat (bgK q) - 2) * unat (ls q)) (drop (2 * unat (ls q)) inp) \<and>
           (\<forall>outp. unat c' \<le> length outp \<longrightarrow>
              srslte_ldpc_encoder_encode_rm E q inp outp il c
                = Some (0, q', cw @ drop (unat c') outp))"
proof -
  have d: "dims_ok q" using i e by (rule init_dims)
  then have "0 < unat (bgK q)" by (simp add: dims_ok_def)
  then have chk: "unat il div unat (bgK q) = unat (ls q)" using il by simp
  obtain f where f: "encode q = Some f" "ptr q \<noteq> None"
    "f = P_encode_c \<longrightarrow> encode_high_rate q \<noteq> None"
    "f \<noteq> P_encode_c \<longrightarrow> encode_high_rate_avx2 q \<noteq> None"
    using init_ready [OF i] by blast
  show ?thesis
    using call_encode_codeword [OF d f(2,3,4) chk inp c, of E]
    by (simp add: srslte_ldpc_encoder_encode_rm_def f(1))
qed

subsection \<open>The systematic region and the full-rate codeword\<close>

lemma bg2_init_avx2:
  "srslte_ldpc_encoder_init nr_env bzero_encoder SRSLTE_LDPC_ENCODER_AVX2 BG2 2
     = (0, bg2_q_avx2, [])"
  by (simp add: srslte_ldpc_encoder_init_def set_dimensions_def init_avx2_def nr_env_def
      nr_ls_index_def bzero_encoder_def bg2_q_avx2_def BG1_def BG2_def Let_def)

lemma full_rate_facts:
  assumes "srslte_ldpc_encoder_init E q0 ty b l = (0, q, rs)" and "env_ok E l"
  shows "rm_length q (ucast (liftN q) - 2 * ucast (ls q))
           = Some (ucast (liftN q) - 2 * ucast (ls q)) \<and>
         unat (ucast (liftN q) - 2 * ucast (ls q) :: 32 word)
           = unat (liftN q) - 2 * unat (ls q) \<and>
         n_layers_of q (ucast (liftN q) - 2 * ucast (ls q)) = bgM q \<and>
         (unat (bgK q) - 2 + unat (bgM q)) * unat (ls q) = unat (liftN q) - 2 * unat (ls q) \<and>
         (\<forall>r q' out'.
            unat il = unat (bgK q) * unat (ls q) \<and>
            srslte_ldpc_encoder_encode E q input output il = Some (r, q', out') \<longrightarrow> r = 0)"
proof -
  define full :: "32 word" where "full = ucast (liftN q) - 2 * ucast (ls q)"
  define L where "L = unat (ls q)"
  define K where "K = unat (bgK q)"
  define M where "M = unat (bgM q)"
  define N where "N = unat (liftN q)"
  have d: "dims_ok q" using assms by (rule init_dims)
  then have L: "0 < L" and M: "4 \<le> M" and N: "N = L * (K + M)" and K: "2 \<le> K"
    by (simp_all add: dims_ok_def L_def K_def M_def N_def)
  have Lb: "L < 65536" using unsigned_less [of "ls q"] by (simp add: L_def)
  have Kb: "K < 256" using unsigned_less [of "bgK q"] by (simp add: K_def)
  have uL: "unat (ucast (ls q) :: 32 word) = L" by (simp add: unat_ucast_16_32 L_def)
  have uK: "unat (ucast (bgK q) :: 32 word) = K" by (simp add: unat_ucast_8_32 K_def)
  have uN: "unat (ucast (liftN q) :: 32 word) = N" by (simp add: unat_ucast_16_32 N_def)
  have u2L: "unat (2 * ucast (ls q) :: 32 word) = 2 * L"
    using Lb uL by (simp add: unat_word_ariths)
  have LM: "4 * L \<le> L * M" using M by simp
  have NN: "N = L * K + L * M" using N by (simp add: distrib_left)
  have le: "2 * L \<le> N" using NN LM by linarith
  have uf: "unat full = N - 2 * L"
    unfolding full_def using le uN u2L by (simp add: unat_sub word_le_nat_alt)
  have hi: "N - 2 * L = (K + M - 2) * L"
    using M by (simp add: N algebra_simps diff_mult_distrib2)
  obtain c' where c: "rm_length q full = Some c'" "unat c' = spec_normalize K L N (unat full)"
    using rm_length_unat [OF d, of full] by (auto simp: K_def L_def N_def)
  have "unat c' = unat full"
    using c(2) spec_normalize_full [OF L N M] by (simp add: uf)
  then have e: "c' = full" by (simp add: word_unat_eq_iff)
  have b: "unat full mod L = 0" "(K + 2) * L \<le> unat full" "unat full \<le> N - 2 * L"
    using spec_normalize_bounds [OF L N M, of "N - 2 * L"] spec_normalize_full [OF L N M]
    by (simp_all add: uf)
  have n: "unat (n_layers_of q full) + K = unat full div L + 2"
    using n_layers_unat(1) [OF d, of full] b by (simp add: K_def L_def N_def)
  have "unat full div L = K + M - 2" using L by (simp add: uf hi)
  with n K M have "unat (n_layers_of q full) = M" by linarith
  then have nl: "n_layers_of q full = bgM q" by (simp add: M_def word_unat_eq_iff)
  have km: "(K - 2 + M) * L = N - 2 * L" using K hi by (simp add: add.commute)
  have st: "r = 0" if il: "unat il = K * L"
    and r: "srslte_ldpc_encoder_encode E q input output il = Some (r, q', out')"
    for r q' out'
  proof (rule ccontr)
    assume "r \<noteq> 0"
    with r have "il div ucast (bgK q) \<noteq> ucast (ls q)"
      using call_encode_status
      by (fastforce simp: srslte_ldpc_encoder_encode_def split: Option.bind_splits)
    moreover have "unat (il div ucast (bgK q)) = L"
      using K by (simp add: unat_div uK il)
    ultimately show False using uL by (simp add: word_unat_eq_iff)
  qed
  show ?thesis
    using c(1) e uf nl km st
    by (simp add: full_def [symmetric] K_def [symmetric] L_def [symmetric]
        M_def [symmetric] N_def [symmetric])
qed

lemma codeword_bytes:
  assumes l: "length cw = n" and t: "take B cw = take B (drop s inp)"
    and B: "B \<le> n" and i: "s + B \<le> length inp" and o: "n \<le> length outp"
  shows "length (cw @ drop n outp) = length outp"
    and "\<forall>k<B. (cw @ drop n outp) ! k = inp ! (s + k)"
proof -
  show "length (cw @ drop n outp) = length outp" using l o by simp
  show "\<forall>k<B. (cw @ drop n outp) ! k = inp ! (s + k)"
  proof (intro allI impI)
    fix k assume k: "k < B"
    then have "(cw @ drop n outp) ! k = cw ! k" using B l by (simp add: nth_append)
    also have "\<dots> = take B cw ! k" using k by simp
    also have "\<dots> = take B (drop s inp) ! k" by (simp only: t)
    also have "\<dots> = inp ! (s + k)" using k i by simp
    finally show "(cw @ drop n outp) ! k = inp ! (s + k)" .
  qed
qed

text \<open>
  C6. On an initialised instance of any tier, with an input length of \<open>bgK * ls\<close> and
  an input buffer of at least that many bytes, the effective length \<open>c'\<close> of the request
  is defined, and with an output buffer of at least \<open>c'\<close> bytes the rate-matched
  operation returns status 0 with bytes \<open>0\<close> to \<open>(bgK - 2) * ls\<close> of the output equal to
  the input bytes from \<open>2 * ls\<close> on, in order; so does the full-rate operation with an
  output buffer of at least \<open>liftN - 2 * ls\<close> bytes.
\<close>

theorem systematic_region_is_input:
  assumes "srslte_ldpc_encoder_init E q0 ty b l = (0, q, rs)"
    and "env_ok E l"
    and "unat il = unat (bgK q) * unat (ls q)"
    and "unat (bgK q) * unat (ls q) \<le> length inp"
  shows "(\<exists>c'. rm_length q c = Some c' \<and>
            (unat c' \<le> length outp \<longrightarrow>
               (\<exists>q' out'. srslte_ldpc_encoder_encode_rm E q inp outp il c = Some (0, q', out') \<and>
                  length out' = length outp \<and>
                  (\<forall>k < (unat (bgK q) - 2) * unat (ls q).
                     out' ! k = inp ! (2 * unat (ls q) + k))))) \<and>
         (unat (liftN q) - 2 * unat (ls q) \<le> length outp \<longrightarrow>
            (\<exists>q' out'. srslte_ldpc_encoder_encode E q inp outp il = Some (0, q', out') \<and>
               length out' = length outp \<and>
               (\<forall>k < (unat (bgK q) - 2) * unat (ls q).
                  out' ! k = inp ! (2 * unat (ls q) + k))))"
proof -
  define L where "L = unat (ls q)"
  define K where "K = unat (bgK q)"
  define B where "B = (K - 2) * L"
  have d: "dims_ok q" using assms(1,2) by (rule init_dims)
  then have K: "2 \<le> K" by (simp add: dims_ok_def K_def)
  have KL: "2 * L + B = K * L"
  proof -
    have "2 + (K - 2) = K" using K by simp
    then have "(2 + (K - 2)) * L = K * L" by (rule arg_cong)
    then show ?thesis by (simp only: add_mult_distrib B_def)
  qed
  have i: "2 * L + B \<le> length inp" using assms(4) KL by (simp add: K_def L_def)
  have gen: "\<exists>q' out'. srslte_ldpc_encoder_encode_rm E q inp outp il x = Some (0, q', out') \<and>
      length out' = length outp \<and> (\<forall>k < B. out' ! k = inp ! (2 * L + k))"
    if x: "rm_length q x = Some x'" and o: "unat x' \<le> length outp" for x x'
  proof -
    obtain cw q' where cw: "length cw = unat x'"
      "take B cw = take B (drop (2 * L) inp)"
      "\<forall>outp. unat x' \<le> length outp \<longrightarrow>
         srslte_ldpc_encoder_encode_rm E q inp outp il x
           = Some (0, q', cw @ drop (unat x') outp)"
      using initialised_codeword [OF assms x] unfolding B_def K_def L_def by blast
    have "(K + 2) * L \<le> unat x'"
      using effective_length_facts(1) [OF d x] by (simp add: K_def L_def)
    moreover have "B \<le> (K + 2) * L" unfolding B_def by (intro mult_le_mono1) simp
    ultimately have Bx: "B \<le> unat x'" by linarith
    note cb = codeword_bytes [OF cw(1,2) Bx i o]
    have "srslte_ldpc_encoder_encode_rm E q inp outp il x
        = Some (0, q', cw @ drop (unat x') outp)" using cw(3) o by blast
    with cb show ?thesis by blast
  qed
  obtain c' where c': "rm_length q c = Some c'" using rm_length_unat [OF d] by blast
  note f = full_rate_facts [OF assms(1,2)]
  have full: "rm_length q (ucast (liftN q) - 2 * ucast (ls q))
      = Some (ucast (liftN q) - 2 * ucast (ls q))"
    and uf: "unat (ucast (liftN q) - 2 * ucast (ls q) :: 32 word)
      = unat (liftN q) - 2 * unat (ls q)"
    using f by blast+
  have e: "srslte_ldpc_encoder_encode E q inp outp il
      = srslte_ldpc_encoder_encode_rm E q inp outp il (ucast (liftN q) - 2 * ucast (ls q))"
    by (simp add: srslte_ldpc_encoder_encode_def srslte_ldpc_encoder_encode_rm_def)
  show ?thesis
    using c' gen [OF c'] gen [OF full] unfolding e uf B_def K_def L_def by blast
qed


subsection \<open>Evaluating the encoders\<close>

lemma bg2_encode_rm_24:
  "srslte_ldpc_encoder_encode_rm nr_env bg2_q bits20 (replicate 24 1) 20 0
   = Some (0, bg2_q\<lparr>ptr := Some bits20\<rparr>,
       [0, 0, 1, 0, 1, 1, 0, 1, 0, 0, 1, 1, 1, 0, 0, 1] @ replicate 8 0)"
  by code_simp

lemma bg2_avx2_encode_rm_38:
  "srslte_ldpc_encoder_encode_rm nr_env bg2_q_avx2 bits20 (replicate 40 1) 20 37
   = Some (0, bg2_q_avx2\<lparr>ptr := Some (bits20 @ replicate 84 0)\<rparr>,
       [0, 0, 1, 0, 1, 1, 0, 1, 0, 0, 1, 1, 1, 0, 0, 1] @ replicate 22 0 @ replicate 2 1)"
  by code_simp

lemma bg2_encode_full:
  "srslte_ldpc_encoder_encode nr_env bg2_q bits20 (replicate 120 1) 20
   = Some (0, bg2_q\<lparr>ptr := Some bits20\<rparr>,
       [0, 0, 1, 0, 1, 1, 0, 1, 0, 0, 1, 1, 1, 0, 0, 1] @ replicate 84 0 @ replicate 20 1)"
  by code_simp

theorem systematic_region_is_input_witness:
  "env_ok nr_env 2 \<and>
   srslte_ldpc_encoder_init nr_env bzero_encoder SRSLTE_LDPC_ENCODER_C BG2 2 = (0, bg2_q, []) \<and>
   srslte_ldpc_encoder_init nr_env bzero_encoder SRSLTE_LDPC_ENCODER_AVX2 BG2 2
     = (0, bg2_q_avx2, []) \<and>
   unat (20 :: 32 word) = unat (bgK bg2_q) * unat (ls bg2_q) \<and>
   unat (bgK bg2_q) * unat (ls bg2_q) \<le> length bits20 \<and>
   rm_length bg2_q 0 = Some 24 \<and>
   srslte_ldpc_encoder_encode_rm nr_env bg2_q bits20 (replicate 24 1) 20 0
     = Some (0, bg2_q\<lparr>ptr := Some bits20\<rparr>, drop 4 bits20 @ replicate 8 0) \<and>
   rm_length bg2_q_avx2 37 = Some 38 \<and>
   srslte_ldpc_encoder_encode_rm nr_env bg2_q_avx2 bits20 (replicate 40 1) 20 37
     = Some (0, bg2_q_avx2\<lparr>ptr := Some (bits20 @ replicate 84 0)\<rparr>,
         drop 4 bits20 @ replicate 22 0 @ replicate 2 1)"
proof -
  have h3: "unat (20 :: 32 word) = unat (bgK bg2_q) * unat (ls bg2_q)"
    by (simp add: bg2_q_def)
  have h4: "unat (bgK bg2_q) * unat (ls bg2_q) \<le> length bits20"
    by (simp add: bg2_q_def bits20_def)
  have h3': "unat (20 :: 32 word) = unat (bgK bg2_q_avx2) * unat (ls bg2_q_avx2)"
    by (simp add: bg2_q_avx2_def)
  have h4': "unat (bgK bg2_q_avx2) * unat (ls bg2_q_avx2) \<le> length bits20"
    by (simp add: bg2_q_avx2_def bits20_def)
  have d: "drop 4 bits20 = [0, 0, 1, 0, 1, 1, 0, 1, 0, 0, 1, 1, 1, 0, 0, 1]"
    by (simp add: bits20_def)
  have r1: "rm_length bg2_q 0 = Some 24" by (simp add: rm_length_def bg2_q_def)
  have r2: "rm_length bg2_q_avx2 37 = Some 38" by (simp add: rm_length_def bg2_q_avx2_def)
  note t1 = systematic_region_is_input [OF bg2_init nr_env_ok h3 h4, of 0 "replicate 24 1"]
  note t2 = systematic_region_is_input [OF bg2_init_avx2 nr_env_ok h3' h4',
      of 37 "replicate 40 1"]
  have e1: "srslte_ldpc_encoder_encode_rm nr_env bg2_q bits20 (replicate 24 1) 20 0
     = Some (0, bg2_q\<lparr>ptr := Some bits20\<rparr>, drop 4 bits20 @ replicate 8 0)"
    unfolding d by (rule bg2_encode_rm_24)
  have e2: "srslte_ldpc_encoder_encode_rm nr_env bg2_q_avx2 bits20 (replicate 40 1) 20 37
     = Some (0, bg2_q_avx2\<lparr>ptr := Some (bits20 @ replicate 84 0)\<rparr>,
         drop 4 bits20 @ replicate 22 0 @ replicate 2 1)"
    unfolding d by (rule bg2_avx2_encode_rm_38)
  show ?thesis
    using t1 t2 nr_env_ok bg2_init bg2_init_avx2 h3 h4 r1 r2 e1 e2 by blast
qed

text \<open>
  C7. On an initialised instance the full-rate operation passes the length
  \<open>liftN - 2 * ls\<close>, which the three adjustments leave unchanged: the \<open>bgK - 2\<close>
  systematic blocks and all \<open>bgM\<close> parity layers. With an input length of \<open>bgK * ls\<close>
  the call does not report an error; and with an input buffer of at least that many
  bytes there is a codeword of exactly \<open>liftN - 2 * ls\<close> bytes, beginning with the
  message without its first two blocks, such that on every output buffer that can
  hold it the call returns status 0, having written this codeword at the start of the
  buffer and nothing after it.
\<close>

theorem encode_full_length:
  assumes "srslte_ldpc_encoder_init E q0 ty b l = (0, q, rs)" and "env_ok E l"
  shows "rm_length q (ucast (liftN q) - 2 * ucast (ls q))
           = Some (ucast (liftN q) - 2 * ucast (ls q)) \<and>
         unat (ucast (liftN q) - 2 * ucast (ls q) :: 32 word)
           = unat (liftN q) - 2 * unat (ls q) \<and>
         n_layers_of q (ucast (liftN q) - 2 * ucast (ls q)) = bgM q \<and>
         (unat (bgK q) - 2 + unat (bgM q)) * unat (ls q) = unat (liftN q) - 2 * unat (ls q) \<and>
         (\<forall>r q' out'.
            unat il = unat (bgK q) * unat (ls q) \<and>
            srslte_ldpc_encoder_encode E q input output il = Some (r, q', out') \<longrightarrow> r = 0) \<and>
         (unat il = unat (bgK q) * unat (ls q) \<and> unat (bgK q) * unat (ls q) \<le> length input \<longrightarrow>
            (\<exists>cw q'. length cw = unat (liftN q) - 2 * unat (ls q) \<and>
               take ((unat (bgK q) - 2) * unat (ls q)) cw
                 = take ((unat (bgK q) - 2) * unat (ls q)) (drop (2 * unat (ls q)) input) \<and>
               (\<forall>outp. unat (liftN q) - 2 * unat (ls q) \<le> length outp \<longrightarrow>
                  srslte_ldpc_encoder_encode E q input outp il
                    = Some (0, q', cw @ drop (unat (liftN q) - 2 * unat (ls q)) outp))))"
proof -
  note f = full_rate_facts [OF assms, of il input "output"]
  have full: "rm_length q (ucast (liftN q) - 2 * ucast (ls q))
      = Some (ucast (liftN q) - 2 * ucast (ls q))"
    and uf: "unat (ucast (liftN q) - 2 * ucast (ls q) :: 32 word)
      = unat (liftN q) - 2 * unat (ls q)"
    using f by blast+
  have e: "srslte_ldpc_encoder_encode E q input outp il
      = srslte_ldpc_encoder_encode_rm E q input outp il (ucast (liftN q) - 2 * ucast (ls q))"
    for outp
    by (simp add: srslte_ldpc_encoder_encode_def srslte_ldpc_encoder_encode_rm_def)
  have p: "\<exists>cw q'. length cw = unat (liftN q) - 2 * unat (ls q) \<and>
       take ((unat (bgK q) - 2) * unat (ls q)) cw
         = take ((unat (bgK q) - 2) * unat (ls q)) (drop (2 * unat (ls q)) input) \<and>
       (\<forall>outp. unat (liftN q) - 2 * unat (ls q) \<le> length outp \<longrightarrow>
          srslte_ldpc_encoder_encode E q input outp il
            = Some (0, q', cw @ drop (unat (liftN q) - 2 * unat (ls q)) outp))"
    if "unat il = unat (bgK q) * unat (ls q)" "unat (bgK q) * unat (ls q) \<le> length input"
    using initialised_codeword [OF assms that full] unfolding e uf .
  show ?thesis using f p by blast
qed

theorem encode_full_length_witness:
  "env_ok nr_env 2 \<and>
   srslte_ldpc_encoder_init nr_env bzero_encoder SRSLTE_LDPC_ENCODER_C BG2 2 = (0, bg2_q, []) \<and>
   rm_length bg2_q 100 = Some 100 \<and> n_layers_of bg2_q 100 = 42 \<and>
   unat (liftN bg2_q) - 2 * unat (ls bg2_q) = 100 \<and>
   unat (20 :: 32 word) = unat (bgK bg2_q) * unat (ls bg2_q) \<and>
   unat (bgK bg2_q) * unat (ls bg2_q) \<le> length bits20 \<and>
   srslte_ldpc_encoder_encode nr_env bg2_q bits20 (replicate 120 1) 20
     = Some (0, bg2_q\<lparr>ptr := Some bits20\<rparr>,
         (drop 4 bits20 @ replicate 84 0) @ drop 100 (replicate 120 1))"
proof -
  have h3: "unat (20 :: 32 word) = unat (bgK bg2_q) * unat (ls bg2_q)"
    by (simp add: bg2_q_def)
  have h4: "unat (bgK bg2_q) * unat (ls bg2_q) \<le> length bits20"
    by (simp add: bg2_q_def bits20_def)
  have v: "rm_length bg2_q 100 = Some 100" "n_layers_of bg2_q 100 = 42"
    "unat (liftN bg2_q) - 2 * unat (ls bg2_q) = 100"
    by (simp_all add: rm_length_def n_layers_of_def bg2_q_def)
  have d: "(drop 4 bits20 @ replicate 84 0) @ drop 100 (replicate 120 (1 :: 8 word))
      = [0, 0, 1, 0, 1, 1, 0, 1, 0, 0, 1, 1, 1, 0, 0, 1] @ replicate 84 0 @ replicate 20 1"
    by (simp add: bits20_def)
  note t = encode_full_length [OF bg2_init nr_env_ok, of 20 bits20 "replicate 120 1"]
  have e: "srslte_ldpc_encoder_encode nr_env bg2_q bits20 (replicate 120 1) 20
     = Some (0, bg2_q\<lparr>ptr := Some bits20\<rparr>,
         (drop 4 bits20 @ replicate 84 0) @ drop 100 (replicate 120 1))"
    unfolding d by (rule bg2_encode_full)
  show ?thesis using t nr_env_ok bg2_init v h3 h4 e by blast
qed

subsection \<open>The dimension check\<close>

lemma init_encode_bound:
  assumes "srslte_ldpc_encoder_init E q0 ty b l = (0, q, rs)"
  shows "encode q \<noteq> None"
proof -
  from assms obtain q9 where
    "init_c E q9 = (0, q, rs) \<or> init_avx2 E q9 = (0, q, rs) \<or> init_avx2long E q9 = (0, q, rs)"
    by (auto simp: srslte_ldpc_encoder_init_def Let_def
        split: if_splits option.splits prod.splits srslte_ldpc_encoder_type_t.splits)
  then show ?thesis
    by (auto simp: init_c_def init_avx2_def init_avx2long_def Let_def
        split: if_splits option.splits)
qed

lemma call_encode_mismatch:
  assumes "bgK q \<noteq> 0" and "il div ucast (bgK q) \<noteq> ucast (ls q)"
  shows "call_encode E f q inp outp il c = Some (-1, q, outp)"
  using assms by (cases f) (simp_all add: encode_c_def encode_avx2_def encode_avx2long_def)

lemma div_eq_interval:
  assumes "0 < (k::nat)"
  shows "a div k = n \<longleftrightarrow> k * n \<le> a \<and> a < k * n + k"
proof
  assume e: "a div k = n"
  have "k * (a div k) + a mod k = a" by simp
  then have "k * n + a mod k = a" unfolding e .
  moreover have "a mod k < k" using assms by simp
  ultimately show "k * n \<le> a \<and> a < k * n + k" by linarith
next
  assume "k * n \<le> a \<and> a < k * n + k"
  then show "a div k = n" by (intro div_nat_eqI) simp_all
qed

text \<open>
  What the check of the three tiers decides on an initialised instance: the call
  returns the error status, with the instance and the output buffer as they were, when
  the integer quotient \<open>input_length / bgK\<close> differs from \<open>ls\<close>; when the quotient
  equals \<open>ls\<close>, that is for each of the \<open>bgK\<close> lengths from \<open>bgK * ls\<close> to
  \<open>bgK * ls + bgK - 1\<close>, no call returns an error status.
\<close>

lemma dimension_check_is_quotient:
  assumes "srslte_ldpc_encoder_init E q0 ty b l = (0, q, rs)" and "env_ok E l"
  shows "(unat il div unat (bgK q) \<noteq> unat (ls q) \<longrightarrow>
            srslte_ldpc_encoder_encode_rm E q inp outp il c = Some (-1, q, outp) \<and>
            srslte_ldpc_encoder_encode E q inp outp il = Some (-1, q, outp)) \<and>
         (unat il div unat (bgK q) = unat (ls q) \<longrightarrow>
            (\<forall>r q' out'.
               srslte_ldpc_encoder_encode_rm E q inp outp il c = Some (r, q', out') \<or>
               srslte_ldpc_encoder_encode E q inp outp il = Some (r, q', out') \<longrightarrow> r = 0)) \<and>
         (unat il div unat (bgK q) = unat (ls q) \<longleftrightarrow>
            unat (bgK q) * unat (ls q) \<le> unat il \<and>
            unat il < unat (bgK q) * unat (ls q) + unat (bgK q))"
proof -
  have d: "dims_ok q" using assms by (rule init_dims)
  then have K: "0 < unat (bgK q)" by (simp add: dims_ok_def)
  then have K0: "bgK q \<noteq> 0" by auto
  obtain f where f: "encode q = Some f" using init_encode_bound [OF assms(1)] by auto
  have rm: "srslte_ldpc_encoder_encode_rm E q inp outp il c = call_encode E f q inp outp il c"
    by (simp add: srslte_ldpc_encoder_encode_rm_def f)
  have en: "srslte_ldpc_encoder_encode E q inp outp il =
      call_encode E f q inp outp il (ucast (liftN q) - 2 * ucast (ls q))"
    by (simp add: srslte_ldpc_encoder_encode_def f)
  have a: "call_encode E f q inp outp il c' = Some (-1, q, outp)"
    if "unat il div unat (bgK q) \<noteq> unat (ls q)" for c'
    using that K0 by (intro call_encode_mismatch) (simp_all add: dimension_check_unat)
  have b: "r = 0"
    if "unat il div unat (bgK q) = unat (ls q)"
      and "call_encode E f q inp outp il c' = Some (r, q', out')" for r q' out' c'
  proof (rule ccontr)
    assume "r \<noteq> 0"
    then have "il div ucast (bgK q) \<noteq> ucast (ls q)"
      using call_encode_status [OF that(2)] by blast
    then show False using that(1) by (simp add: dimension_check_unat)
  qed
  show ?thesis
    unfolding rm en using a b div_eq_interval [OF K] by blast
qed

text \<open>
  C2. A call whose input length is not \<open>bgK\<close> blocks of width \<open>ls\<close> is to return the
  error status and leave the output buffer as it was. The code misses some of these
  lengths. Base graph 2 with lifting size 2 has \<open>bgK = 10\<close>, and an input length of 21
  is not 10 blocks of width 2; but the check divides with truncation,
  \<open>21 / 10 = 2 = ls\<close>: the call returns status 0 and the output buffer, all ones
  before, holds a codeword. With an input length of 19 the same call is rejected and
  the buffer untouched.
\<close>

theorem dimension_check_accepts_partial_block:
  "srslte_ldpc_encoder_init nr_env bzero_encoder SRSLTE_LDPC_ENCODER_C BG2 2 = (0, bg2_q, []) \<and>
   unat (21 :: 32 word) \<noteq> unat (bgK bg2_q) * unat (ls bg2_q) \<and>
   srslte_ldpc_encoder_encode_rm nr_env bg2_q (replicate 21 0) (replicate 100 1) 21 100
     = Some (0, bg2_q\<lparr>ptr := Some (replicate 21 0)\<rparr>, replicate 100 0) \<and>
   srslte_ldpc_encoder_encode_rm nr_env bg2_q (replicate 19 0) (replicate 100 1) 19 100
     = Some (-1, bg2_q, replicate 100 1)"
proof -
  have "srslte_ldpc_encoder_encode_rm nr_env bg2_q (replicate 21 0) (replicate 100 1) 21 100
     = Some (0, bg2_q\<lparr>ptr := Some (replicate 21 0)\<rparr>, replicate 100 0)"
    by code_simp
  moreover have
    "srslte_ldpc_encoder_encode_rm nr_env bg2_q (replicate 19 0) (replicate 100 1) 19 100
     = Some (-1, bg2_q, replicate 100 1)"
    by code_simp
  moreover have "unat (21 :: 32 word) \<noteq> unat (bgK bg2_q) * unat (ls bg2_q)"
    by (simp add: bg2_q_def)
  ultimately show ?thesis using bg2_init by simp
qed

end
